theory Spec2Isabelle
  imports Complex_Main "HOL-Library.Word" "HOL-Library.Multiset"
begin

section \<open>Errors and their propagation\<close>

text \<open>
  The notebook handles no exception of its own: whatever a library call raises stops the
  run. Every operation that can raise returns \<open>error + 'a\<close>, with \<open>Inl\<close> the exception.
\<close>

datatype error =
    IndexError
  | CastError
  | ReductionError
  | ValueError
  | ColumnNotFound string
  | TypeError string
  | UdfLengthError
  | IOError

definition and_then :: "error + 'a \<Rightarrow> ('a \<Rightarrow> error + 'b) \<Rightarrow> error + 'b" where
  "and_then m f = (case m of Inl e \<Rightarrow> Inl e | Inr x \<Rightarrow> f x)"

text \<open>Apply a fallible function to every element, left to right; the first exception wins.\<close>

fun traverse :: "('a \<Rightarrow> error + 'b) \<Rightarrow> 'a list \<Rightarrow> error + 'b list" where
  "traverse f [] = Inr []"
| "traverse f (x # xs) =
     (case f x of
        Inl e \<Rightarrow> Inl e
      | Inr y \<Rightarrow> (case traverse f xs of Inl e \<Rightarrow> Inl e | Inr ys \<Rightarrow> Inr (y # ys)))"

text \<open>Python's \<open>xs[i]\<close> for an index that is not negative.\<close>

definition getitem :: "'a list \<Rightarrow> nat \<Rightarrow> error + 'a" where
  "getitem xs i = (if i < length xs then Inr (xs ! i) else Inl IndexError)"

section \<open>Image tensors\<close>

text \<open>
  A decoded image is a uint8 array of three dimensions, height by width by channels,
  over a flat buffer.
\<close>

record image_array =
  height :: nat
  width :: nat
  channels :: nat
  pixels :: "8 word list"

definition shape :: "image_array \<Rightarrow> nat list" where
  "shape img = [height img, width img, channels img]"

section \<open>The batched transform \<open>ClassifyImage\<close>\<close>

text \<open>
  \<open>__init__\<close> loads three things from torchvision: the network, its preprocessing
  transform and the list of category names. They are the fields of the object; \<open>'b\<close> is
  the type of a preprocessed batch. The network returns one row of scores per image.
\<close>

record 'b ClassifyImage =
  model :: "'b \<Rightarrow> real list list"
  preprocess :: "image_array list \<Rightarrow> 'b"
  category_map :: "string list"

text \<open>
  Modelled from the spec: the engine's \<open>Series.cast\<close> is not among the sources. In
  \<open>images.cast(DataType.tensor(uint8, tuple(shape))).to_pylist()\<close> the column is cast to
  fixed-shape tensors of the explicit shape triple (section 6 of the spec); the cast
  succeeds when every array has the shape asked for.
\<close>

definition cast_fixed_shape :: "nat list \<Rightarrow> image_array list \<Rightarrow> error + image_array list" where
  "cast_fixed_shape shp images =
     (if list_all (\<lambda>img. shape img = shp) images then Inr images else Inl CastError)"

text \<open>
  torch's \<open>softmax(0)\<close>: normalisation along dimension 0, that is down each column of
  the batch.
\<close>

definition softmax0 :: "real list list \<Rightarrow> real list list" where
  "softmax0 x =
     map (\<lambda>row. map (\<lambda>j. exp (row ! j) / sum_list (map (\<lambda>r. exp (r ! j)) x)) [0..<length row]) x"

text \<open>
  torch's \<open>argmax(1)\<close>: for each row the index of its greatest entry (the first one
  on a tie). A reduction over a dimension of size zero raises.
\<close>

fun argmax_from :: "nat \<Rightarrow> real \<Rightarrow> nat \<Rightarrow> real list \<Rightarrow> nat" where
  "argmax_from best v i [] = best"
| "argmax_from best v i (x # xs) =
     (if v < x then argmax_from i x (Suc i) xs else argmax_from best v (Suc i) xs)"

definition argmax :: "real list \<Rightarrow> error + nat" where
  "argmax row = (case row of [] \<Rightarrow> Inl ReductionError | x # xs \<Rightarrow> Inr (argmax_from 0 x 1 xs))"

definition argmax1 :: "real list list \<Rightarrow> error + nat list" where
  "argmax1 x = traverse argmax x"

text \<open>
  \<open>ClassifyImage.__call__(self, images, shape)\<close>. The conversion to a torch tensor and
  the permutation of its axes change the layout only, so \<open>images_array\<close> is the list of
  arrays. \<open>scores\<close> is computed and never used, as in the source.
\<close>

definition call :: "'b ClassifyImage \<Rightarrow> image_array list \<Rightarrow> nat list \<Rightarrow> error + string list" where
  "call self images shp =
     (if length images = 0 then Inr []
      else
        case cast_fixed_shape shp images of
          Inl e \<Rightarrow> Inl e
        | Inr data \<Rightarrow>
            let images_array = data;
                batch = preprocess self images_array;
                prediction = softmax0 (model self batch)
            in case argmax1 prediction of
                 Inl e \<Rightarrow> Inl e
               | Inr class_ids \<Rightarrow>
                   let scores = map (\<lambda>row. map (\<lambda>c. row ! c) class_ids) prediction
                   in traverse (getitem (category_map self)) class_ids)"

section \<open>Tables\<close>

text \<open>
  The source table carries \<open>filename\<close> (text) and \<open>object\<close> (a list of structs, one per
  annotated object); the struct is the one the notebook's output prints.
\<close>

datatype bndbox = Bndbox (xmax: string) (xmin: string) (ymax: string) (ymin: string)

datatype detection =
  Detection (bndbox: bndbox) (difficult: string) (name: string) (pose: string) (truncated: string)

datatype val =
    Utf8 string
  | ObjectList "detection list"
  | Binary "8 word list"
  | Image image_array
  | UInt64 nat
  | Boolean bool

type_synonym row = "string \<rightharpoonup> val"

text \<open>
  A table handle: a schema (the column names, in order) and the rows, held in partitions.
  Every operation returns a new handle.
\<close>

record dataframe =
  schema :: "string list"
  parts :: "row list list"

definition rows :: "dataframe \<Rightarrow> row list" where
  "rows df = concat (parts df)"

definition count_rows :: "dataframe \<Rightarrow> nat" where
  "count_rows df = length (rows df)"

section \<open>Column expressions\<close>

text \<open>
  Modelled from the spec: the engine's column expressions are not among the sources. An
  expression names the columns it reads and is evaluated on one partition at a time,
  giving one value per row (section 3 of the spec: each derived column's length equals
  its input's length).
\<close>

record expr =
  refs :: "string list"
  evaluate :: "row list \<Rightarrow> error + val list"

definition lookup :: "string \<Rightarrow> row \<Rightarrow> error + val" where
  "lookup c r = (case r c of None \<Rightarrow> Inl (ColumnNotFound c) | Some v \<Rightarrow> Inr v)"

text \<open>\<open>df["c"]\<close>\<close>

definition col :: "string \<Rightarrow> expr" where
  "col c = \<lparr>refs = [c], evaluate = traverse (lookup c)\<rparr>"

text \<open>A Python constant used as an operand.\<close>

definition lit :: "val \<Rightarrow> expr" where
  "lit v = \<lparr>refs = [], evaluate = (\<lambda>rs. Inr (map (\<lambda>r. v) rs))\<rparr>"

definition map_expr :: "(val \<Rightarrow> error + val) \<Rightarrow> expr \<Rightarrow> expr" where
  "map_expr f e = \<lparr>refs = refs e, evaluate = (\<lambda>rs. and_then (evaluate e rs) (traverse f))\<rparr>"

definition map2_expr :: "(val \<Rightarrow> val \<Rightarrow> error + val) \<Rightarrow> expr \<Rightarrow> expr \<Rightarrow> expr" where
  "map2_expr f a b =
     \<lparr>refs = refs a @ refs b,
      evaluate = (\<lambda>rs.
        and_then (evaluate a rs) (\<lambda>xs.
        and_then (evaluate b rs) (\<lambda>ys.
          traverse (\<lambda>(x, y). f x y) (zip xs ys))))\<rparr>"

text \<open>\<open>a + b\<close>: concatenation on text, addition on integers.\<close>

definition add_val :: "val \<Rightarrow> val \<Rightarrow> error + val" where
  "add_val x y =
     (case (x, y) of
        (Utf8 s, Utf8 t) \<Rightarrow> Inr (Utf8 (s @ t))
      | (UInt64 m, UInt64 n) \<Rightarrow> Inr (UInt64 (m + n))
      | _ \<Rightarrow> Inl (TypeError ''add''))"

definition expr_add :: "expr \<Rightarrow> expr \<Rightarrow> expr" where
  "expr_add = map2_expr add_val"

text \<open>\<open>e.list.lengths()\<close>\<close>

definition lengths_val :: "val \<Rightarrow> error + val" where
  "lengths_val v =
     (case v of ObjectList os \<Rightarrow> Inr (UInt64 (length os)) | _ \<Rightarrow> Inl (TypeError ''list.lengths''))"

definition list_lengths :: "expr \<Rightarrow> expr" where
  "list_lengths = map_expr lengths_val"

text \<open>\<open>a == b\<close>\<close>

definition expr_eq :: "expr \<Rightarrow> expr \<Rightarrow> expr" where
  "expr_eq = map2_expr (\<lambda>x y. Inr (Boolean (x = y)))"

text \<open>
  What the engine delegates further: the fetch of a URL, the decoding of the bytes and
  the interpolation of pixels. They are parameters of the pipeline.
\<close>

record engine =
  download :: "string \<Rightarrow> error + 8 word list"
  decode :: "8 word list \<Rightarrow> error + image_array"
  resample :: "nat \<Rightarrow> nat \<Rightarrow> image_array \<Rightarrow> 8 word list"

text \<open>\<open>e.url.download()\<close>\<close>

definition download_val :: "engine \<Rightarrow> val \<Rightarrow> error + val" where
  "download_val eng v =
     (case v of
        Utf8 u \<Rightarrow> (case download eng u of Inl e \<Rightarrow> Inl e | Inr b \<Rightarrow> Inr (Binary b))
      | _ \<Rightarrow> Inl (TypeError ''url.download''))"

definition url_download :: "engine \<Rightarrow> expr \<Rightarrow> expr" where
  "url_download eng = map_expr (download_val eng)"

text \<open>\<open>e.image.decode()\<close>\<close>

definition decode_val :: "engine \<Rightarrow> val \<Rightarrow> error + val" where
  "decode_val eng v =
     (case v of
        Binary b \<Rightarrow> (case decode eng b of Inl e \<Rightarrow> Inl e | Inr img \<Rightarrow> Inr (Image img))
      | _ \<Rightarrow> Inl (TypeError ''image.decode''))"

definition image_decode :: "engine \<Rightarrow> expr \<Rightarrow> expr" where
  "image_decode eng = map_expr (decode_val eng)"

text \<open>
  \<open>e.image.resize(w, h)\<close>: resize with fixed target width and height. The channels are
  those of the input.
\<close>

definition resize :: "engine \<Rightarrow> nat \<Rightarrow> nat \<Rightarrow> image_array \<Rightarrow> image_array" where
  "resize eng w h img =
     \<lparr>height = h, width = w, channels = channels img, pixels = resample eng w h img\<rparr>"

definition resize_val :: "engine \<Rightarrow> nat \<Rightarrow> nat \<Rightarrow> val \<Rightarrow> error + val" where
  "resize_val eng w h v =
     (case v of Image img \<Rightarrow> Inr (Image (resize eng w h img)) | _ \<Rightarrow> Inl (TypeError ''image.resize''))"

definition image_resize :: "engine \<Rightarrow> nat \<Rightarrow> nat \<Rightarrow> expr \<Rightarrow> expr" where
  "image_resize eng w h = map_expr (resize_val eng w h)"

text \<open>\<open>e.apply(f, return_dtype=...)\<close> for a Python function \<open>f\<close> on a decoded image.\<close>

definition apply_val :: "(image_array \<Rightarrow> val) \<Rightarrow> val \<Rightarrow> error + val" where
  "apply_val f v = (case v of Image img \<Rightarrow> Inr (f img) | _ \<Rightarrow> Inl (TypeError ''apply''))"

definition apply_fn :: "(image_array \<Rightarrow> val) \<Rightarrow> expr \<Rightarrow> expr" where
  "apply_fn f = map_expr (apply_val f)"

text \<open>
  \<open>@daft.udf(return_dtype=DataType.string())\<close> on \<open>ClassifyImage\<close>: the expression
  \<open>ClassifyImage(e, shape)\<close> hands the whole column of a partition to \<open>__call__\<close> and
  turns the returned list into a text column.
\<close>

definition as_image :: "val \<Rightarrow> error + image_array" where
  "as_image v = (case v of Image img \<Rightarrow> Inr img | _ \<Rightarrow> Inl CastError)"

definition udf_ClassifyImage :: "'b ClassifyImage \<Rightarrow> expr \<Rightarrow> nat list \<Rightarrow> expr" where
  "udf_ClassifyImage self e shp =
     \<lparr>refs = refs e,
      evaluate = (\<lambda>rs.
        and_then (evaluate e rs) (\<lambda>vs.
        and_then (traverse as_image vs) (\<lambda>images.
        and_then (call self images shp) (\<lambda>labels. Inr (map Utf8 labels)))))\<rparr>"

section \<open>Table operations\<close>

text \<open>
  Modelled from the spec: \<open>DataFrame.limit\<close>, \<open>where\<close>, \<open>into_partitions\<close>,
  \<open>with_column\<close>, \<open>select\<close>, \<open>write_parquet\<close> and \<open>read_parquet\<close> belong to the engine and
  are not among the sources. Each follows the stage contract of section 4 of the spec.
  An operation that names a column the table does not have raises.
\<close>

definition check_refs :: "string list \<Rightarrow> dataframe \<Rightarrow> error + unit" where
  "check_refs cs df =
     (case filter (\<lambda>c. c \<notin> set (schema df)) cs of [] \<Rightarrow> Inr () | c # _ \<Rightarrow> Inl (ColumnNotFound c))"

text \<open>
  Modelled from the spec: \<open>DataFrame.limit\<close> (row pruning, section 4.1) keeps the first
  \<open>n\<close> rows, in the order of the partitions.
\<close>

fun take_rows :: "nat \<Rightarrow> 'a list list \<Rightarrow> 'a list list" where
  "take_rows n [] = []"
| "take_rows n (p # ps) = take n p # take_rows (n - length p) ps"

definition limit :: "nat \<Rightarrow> dataframe \<Rightarrow> dataframe" where
  "limit n df = df\<lparr>parts := take_rows n (parts df)\<rparr>"

text \<open>
  Modelled from the spec: \<open>DataFrame.where\<close> (predicate filter, section 4.1) keeps the
  rows on which the predicate holds, partition by partition.
\<close>

definition as_bool :: "val \<Rightarrow> error + bool" where
  "as_bool v = (case v of Boolean b \<Rightarrow> Inr b | _ \<Rightarrow> Inl (TypeError ''where''))"

definition where_part :: "expr \<Rightarrow> row list \<Rightarrow> error + row list" where
  "where_part e p =
     and_then (evaluate e p) (\<lambda>vs.
       if length vs \<noteq> length p then Inl UdfLengthError
       else and_then (traverse as_bool vs) (\<lambda>bs. Inr (map fst (filter snd (zip p bs)))))"

definition where_df :: "expr \<Rightarrow> dataframe \<Rightarrow> error + dataframe" where
  "where_df e df =
     and_then (check_refs (refs e) df) (\<lambda>u.
     and_then (traverse (where_part e) (parts df)) (\<lambda>ps. Inr (df\<lparr>parts := ps\<rparr>)))"

text \<open>
  Modelled from the spec: \<open>DataFrame.into_partitions\<close> (section 4.2) takes a positive
  partition count and gives a logically equivalent table: the same rows in the same
  order, cut into \<open>k\<close> contiguous partitions.
\<close>

fun split_rows :: "nat \<Rightarrow> 'a list \<Rightarrow> 'a list list" where
  "split_rows 0 xs = []"
| "split_rows (Suc k) xs =
     take (length xs div Suc k) xs # split_rows k (drop (length xs div Suc k) xs)"

definition into_partitions :: "nat \<Rightarrow> dataframe \<Rightarrow> error + dataframe" where
  "into_partitions k df =
     (if k = 0 then Inl ValueError else Inr (df\<lparr>parts := split_rows k (rows df)\<rparr>))"

text \<open>
  Modelled from the spec: \<open>DataFrame.with_column\<close> (section 4.3) gives a table with one
  more column, computed partition by partition, one value per row; a column of that name
  is replaced where it stands.
\<close>

definition add_column :: "string \<Rightarrow> string list \<Rightarrow> string list" where
  "add_column c cs = (if c \<in> set cs then cs else cs @ [c])"

definition with_column_part :: "string \<Rightarrow> expr \<Rightarrow> row list \<Rightarrow> error + row list" where
  "with_column_part c e p =
     and_then (evaluate e p) (\<lambda>vs.
       if length vs \<noteq> length p then Inl UdfLengthError
       else Inr (map (\<lambda>(r, v). r(c \<mapsto> v)) (zip p vs)))"

definition with_column :: "string \<Rightarrow> expr \<Rightarrow> dataframe \<Rightarrow> error + dataframe" where
  "with_column c e df =
     and_then (check_refs (refs e) df) (\<lambda>u.
     and_then (traverse (with_column_part c e) (parts df)) (\<lambda>ps.
       Inr \<lparr>schema = add_column c (schema df), parts = ps\<rparr>))"

text \<open>
  Modelled from the spec: \<open>DataFrame.select\<close> (the projection of section 2, stage 5)
  keeps the named columns, in the order given.
\<close>

definition select :: "string list \<Rightarrow> dataframe \<Rightarrow> error + dataframe" where
  "select cs df =
     and_then (check_refs cs df) (\<lambda>u.
       Inr \<lparr>schema = cs, parts = map (map (\<lambda>r. r |` set cs)) (parts df)\<rparr>)"

text \<open>
  Modelled from the spec: \<open>DataFrame.write_parquet\<close> and \<open>daft.read_parquet\<close> (section
  4.5). The sink gives the files it wrote, one per partition, each independently readable
  with the schema; reading those files gives the table back. The directory the files go
  to, and what it held before, are not modelled.
\<close>

record parquet_file =
  file_schema :: "string list"
  file_rows :: "row list"

definition write_parquet :: "dataframe \<Rightarrow> parquet_file list" where
  "write_parquet df = map (\<lambda>p. \<lparr>file_schema = schema df, file_rows = p\<rparr>) (parts df)"

definition read_parquet :: "parquet_file list \<Rightarrow> error + dataframe" where
  "read_parquet files =
     (case files of
        [] \<Rightarrow> Inl IOError
      | f # fs \<Rightarrow> Inr \<lparr>schema = file_schema f, parts = map file_rows files\<rparr>)"

section \<open>The notebook\<close>

definition NUM_ROWS :: nat where
  "NUM_ROWS = 1000"

definition images_prefix :: string where
  "images_prefix = ''s3://daft-public-datasets/imagenet/val-10k-sample-deltalake/images/''"

text \<open>
  \<^verbatim>\<open>df = df.limit(NUM_ROWS)\<close>
  \<^verbatim>\<open>df = df.where(df["object"].list.lengths() == 1)\<close>
\<close>

definition single_object :: expr where
  "single_object = expr_eq (list_lengths (col ''object'')) (lit (UInt64 1))"

definition prune_data :: "dataframe \<Rightarrow> error + dataframe" where
  "prune_data df = where_df single_object (limit NUM_ROWS df)"

text \<open>
  \<^verbatim>\<open>df = df.with_column("image_url", "s3://.../images/" + df["filename"] + ".jpeg")\<close>
  \<^verbatim>\<open>df = df.with_column("image", df["image_url"].url.download().image.decode())\<close>
  \<^verbatim>\<open>df = df.with_column("image_resized_small", df["image"].image.resize(32, 32))\<close>
  \<^verbatim>\<open>df = df.with_column("image_resized_large", df["image"].image.resize(256, 256))\<close>
\<close>

definition image_url_expr :: expr where
  "image_url_expr =
     expr_add (expr_add (lit (Utf8 images_prefix)) (col ''filename'')) (lit (Utf8 ''.jpeg''))"

definition retrieve_images :: "engine \<Rightarrow> dataframe \<Rightarrow> error + dataframe" where
  "retrieve_images eng df =
     and_then (with_column ''image_url'' image_url_expr df) (\<lambda>df.
     and_then (with_column ''image'' (image_decode eng (url_download eng (col ''image_url''))) df) (\<lambda>df.
     and_then (with_column ''image_resized_small'' (image_resize eng 32 32 (col ''image'')) df) (\<lambda>df.
       with_column ''image_resized_large'' (image_resize eng 256 256 (col ''image'')) df)))"

text \<open>
  \<^verbatim>\<open>df = df.where(df["image"].apply(lambda img: img.shape[2] == 3, return_dtype=bool))\<close>
\<close>

definition three_channels :: expr where
  "three_channels = apply_fn (\<lambda>img. Boolean (shape img ! 2 = 3)) (col ''image'')"

definition channel_filter :: "dataframe \<Rightarrow> error + dataframe" where
  "channel_filter df = where_df three_channels df"

text \<open>
  \<^verbatim>\<open>df = df.with_column("predictions_lowres", ClassifyImage(df["image_resized_small"], [32, 32, 3]))\<close>
  \<^verbatim>\<open>df = df.with_column("predictions_highres", ClassifyImage(df["image_resized_large"], [256, 256, 3]))\<close>
\<close>

definition classify :: "'b ClassifyImage \<Rightarrow> dataframe \<Rightarrow> error + dataframe" where
  "classify self df =
     and_then (with_column ''predictions_lowres''
                 (udf_ClassifyImage self (col ''image_resized_small'') [32, 32, 3]) df) (\<lambda>df.
       with_column ''predictions_highres''
         (udf_ClassifyImage self (col ''image_resized_large'') [256, 256, 3]) df)"

definition output_columns :: "string list" where
  "output_columns =
     [''filename'', ''image_url'', ''object'', ''predictions_lowres'', ''predictions_highres'']"

text \<open>
  The cells in order. \<open>preprocessed\<close> is the table after the cell that retrieves and
  resizes the images, \<open>inference_input\<close> the table the two inference stages read (the
  same computation followed by the channel filter), \<open>inference_output\<close> the table they
  leave, \<open>written\<close> the files of the sink, and \<open>notebook\<close> the result of the last cell,
  which reads those files back.
\<close>

definition preprocessed :: "engine \<Rightarrow> dataframe \<Rightarrow> error + dataframe" where
  "preprocessed eng src =
     and_then (prune_data src) (\<lambda>df.
     and_then (into_partitions 16 df) (retrieve_images eng))"

definition inference_input :: "engine \<Rightarrow> dataframe \<Rightarrow> error + dataframe" where
  "inference_input eng src =
     and_then (prune_data src) (\<lambda>df.
     and_then (into_partitions 16 df) (\<lambda>df.
     and_then (retrieve_images eng df) channel_filter))"

definition inference_output :: "engine \<Rightarrow> 'b ClassifyImage \<Rightarrow> dataframe \<Rightarrow> error + dataframe" where
  "inference_output eng self src = and_then (inference_input eng src) (classify self)"

definition written :: "engine \<Rightarrow> 'b ClassifyImage \<Rightarrow> dataframe \<Rightarrow> error + parquet_file list" where
  "written eng self src =
     and_then (inference_output eng self src) (\<lambda>df.
     and_then (select output_columns df) (\<lambda>df. Inr (write_parquet df)))"

definition notebook :: "engine \<Rightarrow> 'b ClassifyImage \<Rightarrow> dataframe \<Rightarrow> error + dataframe" where
  "notebook eng self src = and_then (written eng self src) read_parquet"

section \<open>Expressions that work row by row\<close>

text \<open>
  An expression is row-wise with row function \<open>f\<close> when it succeeds on a partition
  exactly when \<open>f\<close> succeeds on every row, with the same values. All expressions of the
  notebook but the batched transform are of this kind.
\<close>

definition rowwise :: "expr \<Rightarrow> (row \<Rightarrow> error + val) \<Rightarrow> bool" where
  "rowwise e f = (\<forall>rs vs. (evaluate e rs = Inr vs) = (traverse f rs = Inr vs))"

section \<open>The notebook, row by row\<close>

text \<open>
  What each expression of the notebook computes on one row, and what the stages do to a
  row. These are the terms the facts below are stated in; each row function is proved
  to agree with its expression.
\<close>

definition single_object_row :: "row \<Rightarrow> error + val" where
  "single_object_row r =
     (case r ''object'' of
        None \<Rightarrow> Inl (ColumnNotFound ''object'')
      | Some (ObjectList os) \<Rightarrow> Inr (Boolean (length os = 1))
      | Some _ \<Rightarrow> Inl (TypeError ''list.lengths''))"

definition image_url_row :: "row \<Rightarrow> error + val" where
  "image_url_row r =
     (case r ''filename'' of
        None \<Rightarrow> Inl (ColumnNotFound ''filename'')
      | Some (Utf8 n) \<Rightarrow> Inr (Utf8 (images_prefix @ n @ ''.jpeg''))
      | Some _ \<Rightarrow> Inl (TypeError ''add''))"

definition image_row :: "engine \<Rightarrow> row \<Rightarrow> error + val" where
  "image_row eng r =
     (case r ''image_url'' of
        None \<Rightarrow> Inl (ColumnNotFound ''image_url'')
      | Some (Utf8 u) \<Rightarrow>
          (case download eng u of
             Inl e \<Rightarrow> Inl e
           | Inr b \<Rightarrow> (case decode eng b of Inl e \<Rightarrow> Inl e | Inr img \<Rightarrow> Inr (Image img)))
      | Some _ \<Rightarrow> Inl (TypeError ''url.download''))"

definition resize_row :: "engine \<Rightarrow> nat \<Rightarrow> nat \<Rightarrow> row \<Rightarrow> error + val" where
  "resize_row eng w h r =
     (case r ''image'' of
        None \<Rightarrow> Inl (ColumnNotFound ''image'')
      | Some (Image img) \<Rightarrow> Inr (Image (resize eng w h img))
      | Some _ \<Rightarrow> Inl (TypeError ''image.resize''))"

definition three_channels_row :: "row \<Rightarrow> error + val" where
  "three_channels_row r =
     (case r ''image'' of
        None \<Rightarrow> Inl (ColumnNotFound ''image'')
      | Some (Image img) \<Rightarrow> Inr (Boolean (channels img = 3))
      | Some _ \<Rightarrow> Inl (TypeError ''apply''))"

definition has_single_object :: "row \<Rightarrow> bool" where
  "has_single_object r = (\<exists>os. r ''object'' = Some (ObjectList os) \<and> length os = 1)"

definition has_three_channels :: "row \<Rightarrow> bool" where
  "has_three_channels r = (\<exists>img. r ''image'' = Some (Image img) \<and> channels img = 3)"

definition retrieved :: "engine \<Rightarrow> row \<Rightarrow> row \<Rightarrow> bool" where
  "retrieved eng r r' =
     (\<exists>n b img.
        r ''filename'' = Some (Utf8 n)
        \<and> download eng (images_prefix @ n @ ''.jpeg'') = Inr b
        \<and> decode eng b = Inr img
        \<and> r' = r(''image_url'' \<mapsto> Utf8 (images_prefix @ n @ ''.jpeg''),
                 ''image'' \<mapsto> Image img,
                 ''image_resized_small'' \<mapsto> Image (resize eng 32 32 img),
                 ''image_resized_large'' \<mapsto> Image (resize eng 256 256 img)))"

definition labelled :: "'b ClassifyImage \<Rightarrow> row \<Rightarrow> row \<Rightarrow> bool" where
  "labelled self r r' =
     (\<exists>l1 l2.
        l1 \<in> set (category_map self) \<and> l2 \<in> set (category_map self)
        \<and> r' = r(''predictions_lowres'' \<mapsto> Utf8 l1, ''predictions_highres'' \<mapsto> Utf8 l2))"

text \<open>The shapes held in an image column, row by row.\<close>

definition column_shapes :: "string \<Rightarrow> dataframe \<Rightarrow> nat list option list" where
  "column_shapes c df =
     map (\<lambda>r. case r c of Some (Image img) \<Rightarrow> Some (shape img) | _ \<Rightarrow> None) (rows df)"

section \<open>Test doubles\<close>

text \<open>
  Stand-ins for the libraries, used where a property is run on a concrete input: a
  classifier with the single category \<open>cat\<close>, whose network gives one score per image,
  and a blank image of a given shape.
\<close>

definition stub_classifier :: "nat ClassifyImage" where
  "stub_classifier =
     \<lparr>model = (\<lambda>n. replicate n [0]), preprocess = length, category_map = [''cat'']\<rparr>"

definition blank :: "nat \<Rightarrow> nat \<Rightarrow> nat \<Rightarrow> image_array" where
  "blank h w c = \<lparr>height = h, width = w, channels = c, pixels = replicate (h * w * c) 0\<rparr>"

text \<open>
  An engine that fetches nothing and decodes every image to the same 4 by 4 by 3 array,
  and source tables of three rows with the filenames \<open>a\<close>, \<open>b\<close>, \<open>c\<close>: one where
  every row has one object, one where row \<open>b\<close> has two.
\<close>

definition stub_engine :: engine where
  "stub_engine =
     \<lparr>download = (\<lambda>u. Inr []),
      decode = (\<lambda>b. Inr (blank 4 4 3)),
      resample = (\<lambda>w h img. replicate (h * w * channels img) 0)\<rparr>"

text \<open>The same engine with a decoder for grayscale images: one channel.\<close>

definition gray_engine :: engine where
  "gray_engine =
     \<lparr>download = (\<lambda>u. Inr []),
      decode = (\<lambda>b. Inr (blank 4 4 1)),
      resample = (\<lambda>w h img. replicate (h * w * channels img) 0)\<rparr>"

definition a_detection :: detection where
  "a_detection = Detection (Bndbox ''251'' ''1'' ''300'' ''2'') ''0'' ''n01751748'' ''Unspecified'' ''0''"

definition source_row :: "string \<Rightarrow> detection list \<Rightarrow> row" where
  "source_row n os = [''filename'' \<mapsto> Utf8 n, ''object'' \<mapsto> ObjectList os]"

definition abc_table :: dataframe where
  "abc_table =
     \<lparr>schema = [''filename'', ''object''],
      parts = [[source_row ''a'' [a_detection], source_row ''b'' [a_detection],
                source_row ''c'' [a_detection]]]\<rparr>"

definition abc_table_crowded :: dataframe where
  "abc_table_crowded =
     \<lparr>schema = [''filename'', ''object''],
      parts = [[source_row ''a'' [a_detection], source_row ''b'' [a_detection, a_detection],
                source_row ''c'' [a_detection]]]\<rparr>"

section \<open>Facts about the helpers\<close>

lemma traverse_Inr_iff:
  "traverse f xs = Inr ys \<longleftrightarrow> list_all2 (\<lambda>x y. f x = Inr y) xs ys"
proof (induction xs arbitrary: ys)
  case Nil
  then show ?case by auto
next
  case (Cons x xs)
  show ?case
  proof (cases "f x")
    case (Inl e)
    then show ?thesis by (auto simp: list_all2_Cons1)
  next
    case (Inr y)
    then show ?thesis
      using Cons.IH by (cases "traverse f xs") (auto simp: list_all2_Cons1)
  qed
qed

lemma traverse_length: "traverse f xs = Inr ys \<Longrightarrow> length ys = length xs"
  by (simp add: traverse_Inr_iff list_all2_lengthD)

lemma traverse_total:
  assumes "\<And>x. x \<in> set xs \<Longrightarrow> \<exists>y. f x = Inr y"
  shows "\<exists>ys. traverse f xs = Inr ys"
  using assms
proof (induction xs)
  case Nil
  then show ?case by simp
next
  case (Cons x xs)
  from Cons.prems obtain y where y: "f x = Inr y" by auto
  from Cons obtain ys where "traverse f xs = Inr ys" by auto
  with y show ?case by simp
qed

lemma argmax_from_bound:
  "best < i \<Longrightarrow> argmax_from best v i xs < i + length xs"
proof (induction xs arbitrary: best v i)
  case Nil
  then show ?case by simp
next
  case (Cons x xs)
  have a: "argmax_from i x (Suc i) xs < Suc i + length xs"
    by (rule Cons.IH) simp
  have b: "argmax_from best v (Suc i) xs < Suc i + length xs"
    by (rule Cons.IH) (use Cons.prems in simp)
  from a b show ?case by simp
qed

lemma argmax_in_range: "argmax row = Inr k \<Longrightarrow> k < length row"
proof (cases row)
  case Nil
  assume "argmax row = Inr k"
  with Nil show ?thesis by (simp add: argmax_def)
next
  case (Cons x xs)
  assume "argmax row = Inr k"
  with Cons have "k = argmax_from 0 x 1 xs" by (simp add: argmax_def)
  moreover have "argmax_from 0 x 1 xs < 1 + length xs"
    by (rule argmax_from_bound) simp
  ultimately show ?thesis using Cons by simp
qed

lemma argmax_total: "row \<noteq> [] \<Longrightarrow> \<exists>k. argmax row = Inr k"
  by (cases row) (simp_all add: argmax_def)

lemma length_softmax0: "length (softmax0 x) = length x"
  by (simp add: softmax0_def)

lemma softmax0_rows:
  "row' \<in> set (softmax0 x) \<Longrightarrow> \<exists>row \<in> set x. length row' = length row"
  by (auto simp: softmax0_def)

lemma getitem_mem: "getitem xs i = Inr y \<Longrightarrow> y \<in> set xs"
  by (auto simp: getitem_def split: if_splits)

lemma list_all2_right_mem:
  "list_all2 P xs ys \<Longrightarrow> y \<in> set ys \<Longrightarrow> \<exists>x \<in> set xs. P x y"
  by (induction rule: list_all2_induct) auto

section \<open>The batched transform returns one label per image\<close>

text \<open>
  C2. On the empty batch \<open>__call__\<close> returns the empty list: the guard on the length
  answers before anything is indexed, so no exception is raised.
\<close>

theorem call_empty_batch: "call self [] shp = Inr []"
  by (simp add: call_def)

text \<open>
  C1. On a batch of \<open>m \<ge> 1\<close> arrays, all of the shape passed as \<open>shape\<close>, \<open>__call__\<close>
  returns \<open>m\<close> labels, each an entry of \<open>category_map\<close>. The network is a parameter: it
  is taken to return one non-empty row of scores per image, with no more scores than
  there are categories (torchvision's network and its category list have 1000 each).
\<close>

theorem call_one_label_per_image:
  assumes nonempty: "images \<noteq> []"
    and fixed: "\<forall>img \<in> set images. shape img = shp"
    and rows_out: "length (model self (preprocess self images)) = length images"
    and cols_out: "\<forall>row \<in> set (model self (preprocess self images)).
                     row \<noteq> [] \<and> length row \<le> length (category_map self)"
  shows "\<exists>labels. call self images shp = Inr labels \<and> length labels = length images
           \<and> set labels \<subseteq> set (category_map self)"
proof -
  define prediction where "prediction = softmax0 (model self (preprocess self images))"
  have cast: "cast_fixed_shape shp images = Inr images"
    using fixed by (simp add: cast_fixed_shape_def list_all_iff)
  have pred_rows: "row \<noteq> [] \<and> length row \<le> length (category_map self)"
    if "row \<in> set prediction" for row
  proof -
    from that obtain row0 where "row0 \<in> set (model self (preprocess self images))"
      and "length row = length row0"
      unfolding prediction_def by (blast dest: softmax0_rows)
    with cols_out show ?thesis by fastforce
  qed
  have "\<exists>ids. traverse argmax prediction = Inr ids"
    by (rule traverse_total) (simp add: pred_rows argmax_total)
  then obtain class_ids where ids: "argmax1 prediction = Inr class_ids"
    by (auto simp: argmax1_def)
  then have ids_rel: "list_all2 (\<lambda>row k. argmax row = Inr k) prediction class_ids"
    by (simp add: argmax1_def traverse_Inr_iff)
  have ids_bound: "k < length (category_map self)" if "k \<in> set class_ids" for k
  proof -
    from that ids_rel obtain row where "row \<in> set prediction" and "argmax row = Inr k"
      by (blast dest: list_all2_right_mem)
    then show ?thesis using pred_rows argmax_in_range by fastforce
  qed
  have "\<exists>labels. traverse (getitem (category_map self)) class_ids = Inr labels"
    by (rule traverse_total) (simp add: getitem_def ids_bound)
  then obtain labels where labels: "traverse (getitem (category_map self)) class_ids = Inr labels"
    by blast
  then have lab_rel: "list_all2 (\<lambda>k l. getitem (category_map self) k = Inr l) class_ids labels"
    by (simp add: traverse_Inr_iff)
  have "call self images shp = Inr labels"
    using nonempty cast ids labels by (simp add: call_def prediction_def Let_def)
  moreover have "length labels = length images"
    using lab_rel ids_rel rows_out
    by (simp add: list_all2_lengthD[symmetric] prediction_def length_softmax0)
  moreover have "set labels \<subseteq> set (category_map self)"
  proof
    fix l assume "l \<in> set labels"
    with lab_rel obtain k where "getitem (category_map self) k = Inr l"
      by (blast dest: list_all2_right_mem)
    then show "l \<in> set (category_map self)" by (rule getitem_mem)
  qed
  ultimately show ?thesis by blast
qed

theorem call_one_label_per_image_witness:
  "\<exists>labels. call stub_classifier [blank 32 32 3, blank 32 32 3] [32, 32, 3] = Inr labels
     \<and> length labels = 2 \<and> set labels \<subseteq> {''cat''}"
proof -
  let ?images = "[blank 32 32 3, blank 32 32 3]"
  have h1: "?images \<noteq> []" by simp
  have h2: "\<forall>img \<in> set ?images. shape img = [32, 32, 3]"
    by (simp add: shape_def blank_def)
  have h3: "length (model stub_classifier (preprocess stub_classifier ?images)) = length ?images"
    by (simp add: stub_classifier_def)
  have h4: "\<forall>row \<in> set (model stub_classifier (preprocess stub_classifier ?images)).
              row \<noteq> [] \<and> length row \<le> length (category_map stub_classifier)"
    by (simp add: stub_classifier_def)
  from call_one_label_per_image [OF h1 h2 h3 h4] show ?thesis
    by (simp add: stub_classifier_def numeral_2_eq_2)
qed

section \<open>Facts about expressions and filters\<close>

lemma and_then_Inr_iff: "and_then m f = Inr y \<longleftrightarrow> (\<exists>x. m = Inr x \<and> f x = Inr y)"
  by (cases m) (simp_all add: and_then_def)

lemma and_then_Inr [simp]: "and_then (Inr x) f = f x"
  by (simp add: and_then_def)

lemma and_then_Inl [simp]: "and_then (Inl e) f = Inl e"
  by (simp add: and_then_def)

lemma rowwiseD: "rowwise e f \<Longrightarrow> (evaluate e rs = Inr vs) = (traverse f rs = Inr vs)"
  by (simp add: rowwise_def)

lemma traverse_map_total: "(\<And>x. x \<in> set xs \<Longrightarrow> f x = Inr (g x)) \<Longrightarrow> traverse f xs = Inr (map g xs)"
  by (induction xs) simp_all

lemma traverse_fuse:
  "(and_then (traverse f rs) (traverse g) = Inr ys) = (traverse (\<lambda>r. and_then (f r) g) rs = Inr ys)"
proof -
  let ?F = "\<lambda>r v. f r = Inr v" and ?G = "\<lambda>v y. g v = Inr y"
  have comp: "(\<lambda>r y. and_then (f r) g = Inr y) = ?F OO ?G"
    by (intro ext) (simp only: and_then_Inr_iff relcompp_apply)
  have "(and_then (traverse f rs) (traverse g) = Inr ys)
      = (\<exists>vs. list_all2 ?F rs vs \<and> list_all2 ?G vs ys)"
    by (simp only: and_then_Inr_iff traverse_Inr_iff)
  also have "\<dots> = (list_all2 ?F OO list_all2 ?G) rs ys"
    by (simp only: relcompp_apply)
  also have "\<dots> = list_all2 (?F OO ?G) rs ys"
    by (simp only: list.rel_compp)
  also have "\<dots> = (traverse (\<lambda>r. and_then (f r) g) rs = Inr ys)"
    by (simp only: traverse_Inr_iff comp)
  finally show ?thesis .
qed

lemma list_all2_zip_join:
  "list_all2 P rs xs \<Longrightarrow> list_all2 Q rs ys \<Longrightarrow> list_all2 (\<lambda>(x, y) z. H x y z) (zip xs ys) zs
   \<Longrightarrow> list_all2 (\<lambda>r z. \<exists>x y. P r x \<and> Q r y \<and> H x y z) rs zs"
proof (induction rs arbitrary: xs ys zs)
  case Nil
  then show ?case by simp
next
  case (Cons r rs)
  from Cons.prems(1) obtain x xs' where xs: "xs = x # xs'" "P r x" "list_all2 P rs xs'"
    by (auto simp: list_all2_Cons1)
  from Cons.prems(2) obtain y ys' where ys: "ys = y # ys'" "Q r y" "list_all2 Q rs ys'"
    by (auto simp: list_all2_Cons1)
  from Cons.prems(3) xs ys obtain z zs' where zs: "zs = z # zs'" "H x y z"
    "list_all2 (\<lambda>(x, y) z. H x y z) (zip xs' ys') zs'"
    by (auto simp: list_all2_Cons1)
  have "list_all2 (\<lambda>r z. \<exists>x y. P r x \<and> Q r y \<and> H x y z) rs zs'"
    using xs(3) ys(3) zs(3) by (rule Cons.IH)
  moreover have "\<exists>x y. P r x \<and> Q r y \<and> H x y z"
    using xs(2) ys(2) zs(2) by blast
  ultimately show ?case using zs(1) by simp
qed

lemma list_all2_zip_split:
  "list_all2 (\<lambda>r z. \<exists>x y. P r x \<and> Q r y \<and> H x y z) rs zs
   \<Longrightarrow> \<exists>xs ys. list_all2 P rs xs \<and> list_all2 Q rs ys \<and> list_all2 (\<lambda>(x, y) z. H x y z) (zip xs ys) zs"
proof (induction rule: list_all2_induct)
  case Nil
  then show ?case by simp
next
  case (Cons r rs z zs)
  from Cons.hyps obtain x y where xy: "P r x" "Q r y" "H x y z" by blast
  from Cons.IH obtain xs ys where rest: "list_all2 P rs xs" "list_all2 Q rs ys"
    "list_all2 (\<lambda>(x, y) z. H x y z) (zip xs ys) zs" by blast
  have "list_all2 P (r # rs) (x # xs) \<and> list_all2 Q (r # rs) (y # ys)
        \<and> list_all2 (\<lambda>(x, y) z. H x y z) (zip (x # xs) (y # ys)) (z # zs)"
    using xy rest by simp
  then show ?case by blast
qed

lemma traverse_fuse2:
  "(and_then (traverse f rs) (\<lambda>xs. and_then (traverse g rs) (\<lambda>ys. traverse (\<lambda>(x, y). h x y) (zip xs ys))) = Inr zs)
   = (traverse (\<lambda>r. and_then (f r) (\<lambda>x. and_then (g r) (h x))) rs = Inr zs)"
proof -
  let ?P = "\<lambda>r x. f r = Inr x" and ?Q = "\<lambda>r y. g r = Inr y" and ?H = "\<lambda>x y z. h x y = Inr z"
  have eq: "(\<lambda>r z. and_then (f r) (\<lambda>x. and_then (g r) (h x)) = Inr z)
        = (\<lambda>r z. \<exists>x y. ?P r x \<and> ?Q r y \<and> ?H x y z)"
    by (intro ext) (auto simp only: and_then_Inr_iff)
  have pair: "(\<lambda>p z. (case p of (x, y) \<Rightarrow> h x y) = Inr z) = (\<lambda>(x, y) z. ?H x y z)"
    by (intro ext) (simp only: split_beta)
  have "(and_then (traverse f rs) (\<lambda>xs. and_then (traverse g rs) (\<lambda>ys. traverse (\<lambda>(x, y). h x y) (zip xs ys))) = Inr zs)
      = (\<exists>xs ys. list_all2 ?P rs xs \<and> list_all2 ?Q rs ys \<and> list_all2 (\<lambda>(x, y) z. ?H x y z) (zip xs ys) zs)"
    by (simp only: and_then_Inr_iff traverse_Inr_iff pair ex_simps)
  also have "\<dots> = list_all2 (\<lambda>r z. \<exists>x y. ?P r x \<and> ?Q r y \<and> ?H x y z) rs zs"
  proof
    assume "\<exists>xs ys. list_all2 ?P rs xs \<and> list_all2 ?Q rs ys \<and> list_all2 (\<lambda>(x, y) z. ?H x y z) (zip xs ys) zs"
    then obtain xs ys where "list_all2 ?P rs xs" "list_all2 ?Q rs ys"
      "list_all2 (\<lambda>(x, y) z. ?H x y z) (zip xs ys) zs" by blast
    then show "list_all2 (\<lambda>r z. \<exists>x y. ?P r x \<and> ?Q r y \<and> ?H x y z) rs zs"
      by (rule list_all2_zip_join)
  next
    assume "list_all2 (\<lambda>r z. \<exists>x y. ?P r x \<and> ?Q r y \<and> ?H x y z) rs zs"
    then show "\<exists>xs ys. list_all2 ?P rs xs \<and> list_all2 ?Q rs ys \<and> list_all2 (\<lambda>(x, y) z. ?H x y z) (zip xs ys) zs"
      by (rule list_all2_zip_split)
  qed
  also have "\<dots> = (traverse (\<lambda>r. and_then (f r) (\<lambda>x. and_then (g r) (h x))) rs = Inr zs)"
    by (simp only: traverse_Inr_iff eq)
  finally show ?thesis .
qed

lemma rowwise_col: "rowwise (col c) (lookup c)"
  by (simp add: rowwise_def col_def)

lemma rowwise_lit: "rowwise (lit v) (\<lambda>r. Inr v)"
  by (simp add: rowwise_def lit_def traverse_map_total)

lemma rowwise_map_expr:
  assumes "rowwise e f"
  shows "rowwise (map_expr g e) (\<lambda>r. and_then (f r) g)"
  unfolding rowwise_def
proof (intro allI)
  fix rs ys
  have "(evaluate (map_expr g e) rs = Inr ys) = (and_then (traverse f rs) (traverse g) = Inr ys)"
    by (simp add: map_expr_def and_then_Inr_iff rowwiseD[OF assms])
  then show "(evaluate (map_expr g e) rs = Inr ys) = (traverse (\<lambda>r. and_then (f r) g) rs = Inr ys)"
    by (simp add: traverse_fuse)
qed

lemma rowwise_map2_expr:
  assumes "rowwise a f" and "rowwise b g"
  shows "rowwise (map2_expr h a b) (\<lambda>r. and_then (f r) (\<lambda>x. and_then (g r) (h x)))"
  unfolding rowwise_def
proof (intro allI)
  fix rs zs
  have "(evaluate (map2_expr h a b) rs = Inr zs)
      = (and_then (traverse f rs) (\<lambda>xs. and_then (traverse g rs) (\<lambda>ys. traverse (\<lambda>(x, y). h x y) (zip xs ys))) = Inr zs)"
    by (simp add: map2_expr_def and_then_Inr_iff rowwiseD[OF assms(1)] rowwiseD[OF assms(2)])
  then show "(evaluate (map2_expr h a b) rs = Inr zs)
      = (traverse (\<lambda>r. and_then (f r) (\<lambda>x. and_then (g r) (h x))) rs = Inr zs)"
    by (simp add: traverse_fuse2)
qed


lemma check_refs_Inr_iff: "check_refs cs df = Inr u \<longleftrightarrow> set cs \<subseteq> set (schema df)"
proof (cases "filter (\<lambda>c. c \<notin> set (schema df)) cs")
  case Nil
  then show ?thesis by (auto simp: check_refs_def filter_empty_conv)
next
  case (Cons c cs')
  then have "c \<in> set (filter (\<lambda>c. c \<notin> set (schema df)) cs)" by simp
  then have "\<not> set cs \<subseteq> set (schema df)" by auto
  with Cons show ?thesis by (simp add: check_refs_def)
qed

lemma as_bool_Inr_iff: "as_bool v = Inr b \<longleftrightarrow> v = Boolean b"
  by (cases v) (simp_all add: as_bool_def)

lemma list_all2_eq_map: "list_all2 (\<lambda>x y. y = g x) xs ys \<longleftrightarrow> ys = map g xs"
  by (induction xs arbitrary: ys) (auto simp: list_all2_Cons1)

lemma traverse_as_bool: "traverse as_bool vs = Inr bs \<longleftrightarrow> vs = map Boolean bs"
proof -
  have "list_all2 (\<lambda>v b. v = Boolean b) vs bs \<longleftrightarrow> vs = map Boolean bs"
    by (induction bs arbitrary: vs) (auto simp: list_all2_Cons2)
  then show ?thesis by (simp add: traverse_Inr_iff as_bool_Inr_iff)
qed

lemma where_part_Inr_iff:
  "where_part e p = Inr p' \<longleftrightarrow>
     (\<exists>bs. evaluate e p = Inr (map Boolean bs) \<and> length bs = length p
        \<and> p' = map fst (filter snd (zip p bs)))"
proof
  assume "where_part e p = Inr p'"
  then obtain vs bs where "evaluate e p = Inr vs" "length vs = length p"
    "traverse as_bool vs = Inr bs" "p' = map fst (filter snd (zip p bs))"
    by (auto simp: where_part_def and_then_Inr_iff split: if_splits)
  then have "evaluate e p = Inr (map Boolean bs) \<and> length bs = length p
        \<and> p' = map fst (filter snd (zip p bs))"
    by (auto simp: traverse_as_bool)
  then show "\<exists>bs. evaluate e p = Inr (map Boolean bs) \<and> length bs = length p
        \<and> p' = map fst (filter snd (zip p bs))" ..
next
  assume "\<exists>bs. evaluate e p = Inr (map Boolean bs) \<and> length bs = length p
        \<and> p' = map fst (filter snd (zip p bs))"
  then obtain bs where "evaluate e p = Inr (map Boolean bs)" "length bs = length p"
    "p' = map fst (filter snd (zip p bs))" by blast
  moreover have "traverse as_bool (map Boolean bs) = Inr bs"
    by (simp add: traverse_as_bool)
  ultimately show "where_part e p = Inr p'"
    by (simp add: where_part_def)
qed

lemma filter_zip_flags:
  "map fst (filter snd (zip p (map q p))) = filter q p"
  by (induction p) simp_all

lemma where_part_explicit:
  assumes "evaluate e p = Inr (map (\<lambda>r. Boolean (q r)) p)"
  shows "where_part e p = Inr (filter q p)"
proof -
  have "evaluate e p = Inr (map Boolean (map q p))"
    using assms by (simp add: comp_def)
  then show ?thesis
    unfolding where_part_Inr_iff by (intro exI[of _ "map q p"]) (simp add: filter_zip_flags)
qed

lemma traverse_rowwise_flags:
  assumes "traverse f p = Inr (map Boolean bs)"
  shows "bs = map (\<lambda>r. f r = Inr (Boolean True)) p"
  using assms unfolding traverse_Inr_iff
proof (induction p arbitrary: bs)
  case Nil
  then show ?case by simp
next
  case (Cons r p)
  then show ?case by (cases bs) auto
qed

lemma where_part_rowwise:
  assumes "rowwise e f" and "where_part e p = Inr p'"
  shows "p' = filter (\<lambda>r. f r = Inr (Boolean True)) p"
proof -
  from assms(2) obtain bs where ev: "evaluate e p = Inr (map Boolean bs)"
    and p': "p' = map fst (filter snd (zip p bs))"
    unfolding where_part_Inr_iff by blast
  from ev have "traverse f p = Inr (map Boolean bs)"
    by (simp add: rowwiseD[OF assms(1)])
  then have "bs = map (\<lambda>r. f r = Inr (Boolean True)) p"
    by (rule traverse_rowwise_flags)
  with p' show ?thesis by (simp add: filter_zip_flags)
qed

lemma where_df_Inr_iff:
  "where_df e df = Inr df' \<longleftrightarrow>
     set (refs e) \<subseteq> set (schema df)
     \<and> (\<exists>ps. list_all2 (\<lambda>p p'. where_part e p = Inr p') (parts df) ps \<and> df' = df\<lparr>parts := ps\<rparr>)"
  by (auto simp: where_df_def and_then_Inr_iff check_refs_Inr_iff traverse_Inr_iff)

lemma where_df_explicit:
  assumes "set (refs e) \<subseteq> set (schema df)"
    and "\<And>p. p \<in> set (parts df) \<Longrightarrow> evaluate e p = Inr (map (\<lambda>r. Boolean (q r)) p)"
  shows "where_df e df = Inr (df\<lparr>parts := map (filter q) (parts df)\<rparr>)"
proof -
  have "traverse (where_part e) (parts df) = Inr (map (filter q) (parts df))"
    by (rule traverse_map_total) (simp add: assms(2) where_part_explicit)
  moreover have "check_refs (refs e) df = Inr ()"
    using assms(1) by (simp add: check_refs_Inr_iff)
  ultimately show ?thesis by (simp add: where_df_def)
qed

lemma where_df_rowwise:
  assumes "rowwise e f" and "where_df e df = Inr df'"
  shows "df' = df\<lparr>parts := map (filter (\<lambda>r. f r = Inr (Boolean True))) (parts df)\<rparr>"
proof -
  from assms(2) obtain ps where ps: "list_all2 (\<lambda>p p'. where_part e p = Inr p') (parts df) ps"
    and df': "df' = df\<lparr>parts := ps\<rparr>"
    unfolding where_df_Inr_iff by blast
  from ps have "list_all2 (\<lambda>p p'. p' = filter (\<lambda>r. f r = Inr (Boolean True)) p) (parts df) ps"
    by (rule list_all2_mono) (simp add: where_part_rowwise[OF assms(1)])
  then have "ps = map (filter (\<lambda>r. f r = Inr (Boolean True))) (parts df)"
    by (simp add: list_all2_eq_map)
  with df' show ?thesis by simp
qed

lemma rows_where_df_rowwise:
  assumes "rowwise e f" and "where_df e df = Inr df'"
  shows "rows df' = filter (\<lambda>r. f r = Inr (Boolean True)) (rows df)" and "schema df' = schema df"
  using where_df_rowwise[OF assms] by (simp_all add: rows_def filter_concat)


lemma where_idempotent_rowwise:
  assumes "rowwise e f"
  shows "and_then (where_df e df) (where_df e) = where_df e df"
proof (cases "where_df e df")
  case (Inl err)
  then show ?thesis by simp
next
  case (Inr df')
  let ?keep = "\<lambda>r. f r = Inr (Boolean True)"
  from Inr have refs: "set (refs e) \<subseteq> set (schema df)"
    by (simp add: where_df_Inr_iff)
  have df': "df' = df\<lparr>parts := map (filter ?keep) (parts df)\<rparr>"
    using assms Inr by (rule where_df_rowwise)
  have "evaluate e p = Inr (map (\<lambda>r. Boolean True) p)" if "p \<in> set (parts df')" for p
  proof -
    from that df' have "\<forall>r \<in> set p. f r = Inr (Boolean True)" by auto
    then have "traverse f p = Inr (map (\<lambda>r. Boolean True) p)"
      by (intro traverse_map_total) simp
    then show ?thesis by (simp add: rowwiseD[OF assms])
  qed
  with refs df' have "where_df e df' = Inr (df'\<lparr>parts := map (filter (\<lambda>r. True)) (parts df')\<rparr>)"
    by (intro where_df_explicit) simp_all
  moreover have "map (filter (\<lambda>r. True)) (parts df') = parts df'"
    by (intro map_idI) simp
  ultimately have "where_df e df' = Inr df'" by simp
  with Inr show ?thesis by simp
qed

lemma rowwise_length_one:
  "rowwise (expr_eq (list_lengths (col c)) (lit (UInt64 1)))
     (\<lambda>r. and_then (and_then (lookup c r) lengths_val)
            (\<lambda>x. and_then (Inr (UInt64 1)) (\<lambda>y. Inr (Boolean (x = y)))))"
  unfolding expr_eq_def list_lengths_def
  by (intro rowwise_map2_expr rowwise_map_expr rowwise_col rowwise_lit)

section \<open>Pruning and repartitioning\<close>

lemma concat_take_rows: "concat (take_rows n ps) = take n (concat ps)"
  by (induction ps arbitrary: n) simp_all

lemma rows_limit: "rows (limit n df) = take n (rows df)"
  by (simp add: rows_def limit_def concat_take_rows)

text \<open>
  C4. Limiting a table to \<open>N\<close> rows and counting gives the smaller of \<open>N\<close> and the
  number of rows the table had.
\<close>

theorem limit_count: "count_rows (limit n df) = min n (count_rows df)"
  by (simp add: count_rows_def rows_limit min.commute)

text \<open>
  C5. Keeping the rows whose list in column \<open>c\<close> has length 1 is idempotent: running the
  filter on its own result changes nothing, and where the first run raises, so does the
  composition. The notebook's filter is the instance \<open>c = object\<close>.
\<close>

theorem where_length_one_idempotent:
  "and_then (where_df (expr_eq (list_lengths (col c)) (lit (UInt64 1))) df)
            (where_df (expr_eq (list_lengths (col c)) (lit (UInt64 1))))
   = where_df (expr_eq (list_lengths (col c)) (lit (UInt64 1))) df"
  using rowwise_length_one by (rule where_idempotent_rowwise)

lemma concat_split_rows: "0 < k \<Longrightarrow> concat (split_rows k (xs :: 'a list)) = xs"
proof (induction k arbitrary: xs)
  case 0
  then show ?case by simp
next
  case (Suc k)
  note IH = Suc.IH
  show ?case
  proof (cases "k = 0")
    case True
    then show ?thesis by simp
  next
    case False
    then have "0 < k" by simp
    then have "concat (split_rows k ys) = ys" for ys :: "'a list" by (rule IH)
    then show ?thesis by simp
  qed
qed

lemma length_split_rows: "length (split_rows k xs) = k"
  by (induction k arbitrary: xs) simp_all

text \<open>
  C6. Repartitioning into \<open>k \<ge> 1\<close> partitions succeeds, gives \<open>k\<close> partitions, and keeps
  the number of rows, the multiset of rows and the schema.
\<close>

theorem into_partitions_preserves_rows:
  assumes "1 \<le> k"
  shows "\<exists>df'. into_partitions k df = Inr df' \<and> length (parts df') = k
           \<and> count_rows df' = count_rows df \<and> mset (rows df') = mset (rows df)
           \<and> schema df' = schema df"
  using assms
  by (simp add: into_partitions_def count_rows_def rows_def concat_split_rows length_split_rows)

theorem into_partitions_preserves_rows_witness:
  "\<exists>df'. into_partitions 16 abc_table = Inr df' \<and> length (parts df') = 16
     \<and> count_rows df' = 3 \<and> mset (rows df') = mset (rows abc_table)
     \<and> schema df' = [''filename'', ''object'']"
  using into_partitions_preserves_rows [of 16 abc_table]
  by (simp add: count_rows_def rows_def abc_table_def numeral_3_eq_3)

section \<open>Facts about the stages\<close>

lemma list_all2_concat:
  "list_all2 (list_all2 R) xss yss \<Longrightarrow> list_all2 R (concat xss) (concat yss)"
  by (induction rule: list_all2_induct) (simp_all add: list_all2_appendI)

lemma list_all2_total:
  "(\<And>x. x \<in> set xs \<Longrightarrow> \<exists>y. R x y) \<Longrightarrow> \<exists>ys. list_all2 R xs ys"
proof (induction xs)
  case Nil
  then show ?case by simp
next
  case (Cons x xs)
  from Cons.prems obtain y where "R x y" by auto
  moreover from Cons obtain ys where "list_all2 R xs ys" by auto
  ultimately have "list_all2 R (x # xs) (y # ys)" by simp
  then show ?case ..
qed

lemma list_all2_update:
  "list_all2 P p vs \<Longrightarrow>
   list_all2 (\<lambda>r r'. \<exists>v. P r v \<and> r' = r(c \<mapsto> v)) p (map (\<lambda>(r, v). r(c \<mapsto> v)) (zip p vs))"
  by (induction rule: list_all2_induct) auto

lemma with_column_part_Inr_iff:
  "with_column_part c e p = Inr p' \<longleftrightarrow>
     (\<exists>vs. evaluate e p = Inr vs \<and> length vs = length p
        \<and> p' = map (\<lambda>(r, v). r(c \<mapsto> v)) (zip p vs))"
  by (auto simp: with_column_part_def and_then_Inr_iff split: if_splits)

lemma with_column_Inr_iff:
  "with_column c e df = Inr df' \<longleftrightarrow>
     set (refs e) \<subseteq> set (schema df)
     \<and> (\<exists>ps. list_all2 (\<lambda>p p'. with_column_part c e p = Inr p') (parts df) ps
            \<and> df' = \<lparr>schema = add_column c (schema df), parts = ps\<rparr>)"
  by (auto simp: with_column_def and_then_Inr_iff check_refs_Inr_iff traverse_Inr_iff)

lemma with_column_rel:
  assumes ok: "with_column c e df = Inr df'"
    and vals: "\<And>p vs. p \<in> set (parts df) \<Longrightarrow> evaluate e p = Inr vs \<Longrightarrow> length vs = length p
                 \<Longrightarrow> list_all2 P p vs"
  shows "list_all2 (list_all2 (\<lambda>r r'. \<exists>v. P r v \<and> r' = r(c \<mapsto> v))) (parts df) (parts df')"
proof -
  from ok obtain ps where ps: "list_all2 (\<lambda>p p'. with_column_part c e p = Inr p') (parts df) ps"
    and df': "df' = \<lparr>schema = add_column c (schema df), parts = ps\<rparr>"
    and refs: "set (refs e) \<subseteq> set (schema df)"
    unfolding with_column_Inr_iff by blast
  have "list_all2 (\<lambda>r r'. \<exists>v. P r v \<and> r' = r(c \<mapsto> v)) p p'"
    if "p \<in> set (parts df)" and "with_column_part c e p = Inr p'" for p p'
  proof -
    from that(2) obtain vs where vs: "evaluate e p = Inr vs" and len: "length vs = length p"
      and p': "p' = map (\<lambda>(r, v). r(c \<mapsto> v)) (zip p vs)"
      unfolding with_column_part_Inr_iff by blast
    from that(1) vs len have "list_all2 P p vs" by (rule vals)
    then show ?thesis unfolding p' by (rule list_all2_update)
  qed
  with ps have "list_all2 (list_all2 (\<lambda>r r'. \<exists>v. P r v \<and> r' = r(c \<mapsto> v))) (parts df) ps"
    by (rule list.rel_mono_strong) blast
  with df' show ?thesis by simp
qed

lemma with_column_rows:
  assumes "with_column c e df = Inr df'"
    and "\<And>p vs. p \<in> set (parts df) \<Longrightarrow> evaluate e p = Inr vs \<Longrightarrow> length vs = length p
           \<Longrightarrow> list_all2 P p vs"
  shows "list_all2 (\<lambda>r r'. \<exists>v. P r v \<and> r' = r(c \<mapsto> v)) (rows df) (rows df')"
  unfolding rows_def using with_column_rel[OF assms] by (rule list_all2_concat)

lemma with_column_rows_rowwise:
  assumes "rowwise e f" and "with_column c e df = Inr df'"
  shows "list_all2 (\<lambda>r r'. \<exists>v. f r = Inr v \<and> r' = r(c \<mapsto> v)) (rows df) (rows df')"
  using assms(2)
proof (rule with_column_rows)
  fix p vs
  assume "evaluate e p = Inr vs"
  then show "list_all2 (\<lambda>r v. f r = Inr v) p vs"
    by (simp add: rowwiseD[OF assms(1)] traverse_Inr_iff)
qed

lemma with_column_succeeds:
  assumes "set (refs e) \<subseteq> set (schema df)"
    and "\<And>p. p \<in> set (parts df) \<Longrightarrow> \<exists>vs. evaluate e p = Inr vs \<and> length vs = length p"
  shows "\<exists>df'. with_column c e df = Inr df'"
proof -
  have "\<exists>p'. with_column_part c e p = Inr p'" if "p \<in> set (parts df)" for p
    using assms(2)[OF that] unfolding with_column_part_Inr_iff by blast
  then have "\<exists>ps. list_all2 (\<lambda>p p'. with_column_part c e p = Inr p') (parts df) ps"
    by (rule list_all2_total)
  with assms(1) show ?thesis unfolding with_column_Inr_iff by blast
qed

lemma with_column_succeeds_rowwise:
  assumes "rowwise e f" and "set (refs e) \<subseteq> set (schema df)"
    and "\<And>r. r \<in> set (rows df) \<Longrightarrow> \<exists>v. f r = Inr v"
  shows "\<exists>df'. with_column c e df = Inr df'"
  using assms(2)
proof (rule with_column_succeeds)
  fix p assume p: "p \<in> set (parts df)"
  then have "\<And>r. r \<in> set p \<Longrightarrow> \<exists>v. f r = Inr v"
    using assms(3) by (auto simp: rows_def)
  then obtain vs where vs: "traverse f p = Inr vs" using traverse_total by blast
  then have "evaluate e p = Inr vs \<and> length vs = length p"
    by (simp add: rowwiseD[OF assms(1)] traverse_length)
  then show "\<exists>vs. evaluate e p = Inr vs \<and> length vs = length p" ..
qed

lemma where_df_succeeds_rowwise:
  assumes "rowwise e f" and "set (refs e) \<subseteq> set (schema df)"
    and "\<And>r. r \<in> set (rows df) \<Longrightarrow> \<exists>b. f r = Inr (Boolean b)"
  shows "where_df e df = Inr (df\<lparr>parts := map (filter (\<lambda>r. f r = Inr (Boolean True))) (parts df)\<rparr>)"
  using assms(2)
proof (rule where_df_explicit)
  fix p assume p: "p \<in> set (parts df)"
  have "traverse f p = Inr (map (\<lambda>r. Boolean (f r = Inr (Boolean True))) p)"
  proof (rule traverse_map_total)
    fix r assume "r \<in> set p"
    with p have "r \<in> set (rows df)" by (auto simp: rows_def)
    then obtain b where "f r = Inr (Boolean b)" using assms(3) by blast
    then show "f r = Inr (Boolean (f r = Inr (Boolean True)))" by simp
  qed
  then show "evaluate e p = Inr (map (\<lambda>r. Boolean (f r = Inr (Boolean True))) p)"
    by (simp add: rowwiseD[OF assms(1)])
qed

lemma rowwise_single_object: "rowwise single_object single_object_row"
proof -
  have "single_object_row = (\<lambda>r. and_then (and_then (lookup ''object'' r) lengths_val)
            (\<lambda>x. and_then (Inr (UInt64 1)) (\<lambda>y. Inr (Boolean (x = y)))))"
    by (auto simp: fun_eq_iff single_object_row_def lookup_def lengths_val_def
        split: option.splits val.splits)
  moreover have "rowwise single_object (\<lambda>r. and_then (and_then (lookup ''object'' r) lengths_val)
            (\<lambda>x. and_then (Inr (UInt64 1)) (\<lambda>y. Inr (Boolean (x = y)))))"
    unfolding single_object_def by (rule rowwise_length_one)
  ultimately show ?thesis by simp
qed

lemma rowwise_image_url: "rowwise image_url_expr image_url_row"
proof -
  have "image_url_row = (\<lambda>r. and_then
          (and_then (Inr (Utf8 images_prefix)) (\<lambda>x. and_then (lookup ''filename'' r) (add_val x)))
          (\<lambda>x. and_then (Inr (Utf8 ''.jpeg'')) (add_val x)))"
    by (auto simp: fun_eq_iff image_url_row_def lookup_def add_val_def
        split: option.splits val.splits)
  moreover have "rowwise image_url_expr (\<lambda>r. and_then
          (and_then (Inr (Utf8 images_prefix)) (\<lambda>x. and_then (lookup ''filename'' r) (add_val x)))
          (\<lambda>x. and_then (Inr (Utf8 ''.jpeg'')) (add_val x)))"
    unfolding image_url_expr_def expr_add_def
    by (intro rowwise_map2_expr rowwise_col rowwise_lit)
  ultimately show ?thesis by simp
qed

lemma rowwise_image: "rowwise (image_decode eng (url_download eng (col ''image_url''))) (image_row eng)"
proof -
  have "image_row eng = (\<lambda>r. and_then (and_then (lookup ''image_url'' r) (download_val eng)) (decode_val eng))"
    by (auto simp: fun_eq_iff image_row_def lookup_def download_val_def decode_val_def
        split: option.splits val.splits sum.splits)
  moreover have "rowwise (image_decode eng (url_download eng (col ''image_url'')))
      (\<lambda>r. and_then (and_then (lookup ''image_url'' r) (download_val eng)) (decode_val eng))"
    unfolding image_decode_def url_download_def
    by (intro rowwise_map_expr rowwise_col)
  ultimately show ?thesis by simp
qed

lemma rowwise_resize: "rowwise (image_resize eng w h (col ''image'')) (resize_row eng w h)"
proof -
  have "resize_row eng w h = (\<lambda>r. and_then (lookup ''image'' r) (resize_val eng w h))"
    by (auto simp: fun_eq_iff resize_row_def lookup_def resize_val_def
        split: option.splits val.splits)
  moreover have "rowwise (image_resize eng w h (col ''image''))
      (\<lambda>r. and_then (lookup ''image'' r) (resize_val eng w h))"
    unfolding image_resize_def by (intro rowwise_map_expr rowwise_col)
  ultimately show ?thesis by simp
qed

lemma rowwise_three_channels: "rowwise three_channels three_channels_row"
proof -
  have "three_channels_row
      = (\<lambda>r. and_then (lookup ''image'' r) (apply_val (\<lambda>img. Boolean (shape img ! 2 = 3))))"
    by (auto simp: fun_eq_iff three_channels_row_def lookup_def apply_val_def shape_def
        split: option.splits val.splits)
  moreover have "rowwise three_channels
      (\<lambda>r. and_then (lookup ''image'' r) (apply_val (\<lambda>img. Boolean (shape img ! 2 = 3))))"
    unfolding three_channels_def apply_fn_def by (intro rowwise_map_expr rowwise_col)
  ultimately show ?thesis by simp
qed

lemma single_object_row_Inr:
  "single_object_row r = Inr v \<longleftrightarrow> (\<exists>os. r ''object'' = Some (ObjectList os) \<and> v = Boolean (length os = 1))"
  by (auto simp: single_object_row_def split: option.splits val.splits)

lemma image_url_row_Inr:
  "image_url_row r = Inr v \<longleftrightarrow>
     (\<exists>n. r ''filename'' = Some (Utf8 n) \<and> v = Utf8 (images_prefix @ n @ ''.jpeg''))"
  by (auto simp: image_url_row_def split: option.splits val.splits)

lemma image_row_Inr:
  "image_row eng r = Inr v \<longleftrightarrow>
     (\<exists>u b img. r ''image_url'' = Some (Utf8 u) \<and> download eng u = Inr b \<and> decode eng b = Inr img
        \<and> v = Image img)"
  by (auto simp: image_row_def split: option.splits val.splits sum.splits)

lemma resize_row_Inr:
  "resize_row eng w h r = Inr v \<longleftrightarrow>
     (\<exists>img. r ''image'' = Some (Image img) \<and> v = Image (resize eng w h img))"
  by (auto simp: resize_row_def split: option.splits val.splits)

lemma three_channels_row_Inr:
  "three_channels_row r = Inr v \<longleftrightarrow>
     (\<exists>img. r ''image'' = Some (Image img) \<and> v = Boolean (channels img = 3))"
  by (auto simp: three_channels_row_def split: option.splits val.splits)

lemma refs_notebook [simp]:
  "refs single_object = [''object'']"
  "refs image_url_expr = [''filename'']"
  "refs (image_decode eng (url_download eng (col c))) = [c]"
  "refs (image_resize eng w h (col c)) = [c]"
  "refs three_channels = [''image'']"
  "refs (udf_ClassifyImage self (col c) shp) = [c]"
  by (simp_all add: single_object_def image_url_expr_def image_decode_def url_download_def
      image_resize_def three_channels_def udf_ClassifyImage_def expr_eq_def expr_add_def
      list_lengths_def apply_fn_def map_expr_def map2_expr_def col_def lit_def)

lemma single_object_keeps: "(single_object_row r = Inr (Boolean True)) = has_single_object r"
  by (auto simp: single_object_row_Inr has_single_object_def)

lemma three_channels_keeps: "(three_channels_row r = Inr (Boolean True)) = has_three_channels r"
  by (auto simp: three_channels_row_Inr has_three_channels_def)

lemma schema_limit: "schema (limit n df) = schema df"
  by (simp add: limit_def)

lemma with_column_schema:
  assumes "with_column c e df = Inr df'"
  shows "schema df' = add_column c (schema df)" and "set (refs e) \<subseteq> set (schema df)"
  using assms unfolding with_column_Inr_iff by auto

lemma prune_data_rows:
  assumes "prune_data src = Inr df"
  shows "rows df = filter has_single_object (take NUM_ROWS (rows src))"
    and "schema df = schema src"
    and "''object'' \<in> set (schema src)"
proof -
  from assms have ok: "where_df single_object (limit NUM_ROWS src) = Inr df"
    by (simp add: prune_data_def)
  from rows_where_df_rowwise[OF rowwise_single_object ok]
  show "rows df = filter has_single_object (take NUM_ROWS (rows src))"
    and "schema df = schema src"
    by (simp_all add: single_object_keeps rows_limit schema_limit)
  from ok show "''object'' \<in> set (schema src)"
    by (simp add: where_df_Inr_iff limit_def)
qed

lemma channel_filter_rows:
  assumes "channel_filter df = Inr df'"
  shows "rows df' = filter has_three_channels (rows df)"
    and "schema df' = schema df"
    and "length (parts df') = length (parts df)"
proof -
  from assms have ok: "where_df three_channels df = Inr df'"
    by (simp add: channel_filter_def)
  from rows_where_df_rowwise[OF rowwise_three_channels ok]
  show "rows df' = filter has_three_channels (rows df)" and "schema df' = schema df"
    by (simp_all add: three_channels_keeps)
  from where_df_rowwise[OF rowwise_three_channels ok]
  show "length (parts df') = length (parts df)" by simp
qed

lemma with_column_parts_length:
  assumes "with_column c e df = Inr df'"
  shows "length (parts df') = length (parts df)"
proof -
  from assms obtain ps where "list_all2 (\<lambda>p p'. with_column_part c e p = Inr p') (parts df) ps"
    and "df' = \<lparr>schema = add_column c (schema df), parts = ps\<rparr>"
    unfolding with_column_Inr_iff by blast
  then show ?thesis by (simp add: list_all2_lengthD)
qed

lemma list_all2_compose:
  "list_all2 R xs ys \<Longrightarrow> list_all2 S ys zs \<Longrightarrow> list_all2 (R OO S) xs zs"
  by (simp only: list.rel_compp) (rule relcomppI)

lemma retrieve_images_rows:
  assumes "retrieve_images eng df = Inr df'"
  shows "list_all2 (retrieved eng) (rows df) (rows df')"
    and "schema df' = add_column ''image_resized_large'' (add_column ''image_resized_small''
           (add_column ''image'' (add_column ''image_url'' (schema df))))"
    and "''filename'' \<in> set (schema df)"
    and "length (parts df') = length (parts df)"
proof -
  from assms obtain d1 d2 d3 where
    s1: "with_column ''image_url'' image_url_expr df = Inr d1" and
    s2: "with_column ''image'' (image_decode eng (url_download eng (col ''image_url''))) d1 = Inr d2" and
    s3: "with_column ''image_resized_small'' (image_resize eng 32 32 (col ''image'')) d2 = Inr d3" and
    s4: "with_column ''image_resized_large'' (image_resize eng 256 256 (col ''image'')) d3 = Inr df'"
    by (auto simp: retrieve_images_def and_then_Inr_iff)
  let ?R1 = "\<lambda>r r'. \<exists>v. image_url_row r = Inr v \<and> r' = r(''image_url'' \<mapsto> v)"
  let ?R2 = "\<lambda>r r'. \<exists>v. image_row eng r = Inr v \<and> r' = r(''image'' \<mapsto> v)"
  let ?R3 = "\<lambda>r r'. \<exists>v. resize_row eng 32 32 r = Inr v \<and> r' = r(''image_resized_small'' \<mapsto> v)"
  let ?R4 = "\<lambda>r r'. \<exists>v. resize_row eng 256 256 r = Inr v \<and> r' = r(''image_resized_large'' \<mapsto> v)"
  have r1: "list_all2 ?R1 (rows df) (rows d1)"
    using rowwise_image_url s1 by (rule with_column_rows_rowwise)
  have r2: "list_all2 ?R2 (rows d1) (rows d2)"
    using rowwise_image s2 by (rule with_column_rows_rowwise)
  have r3: "list_all2 ?R3 (rows d2) (rows d3)"
    using rowwise_resize s3 by (rule with_column_rows_rowwise)
  have r4: "list_all2 ?R4 (rows d3) (rows df')"
    using rowwise_resize s4 by (rule with_column_rows_rowwise)
  have "list_all2 (?R1 OO ?R2 OO ?R3 OO ?R4) (rows df) (rows df')"
    by (intro list_all2_compose[OF r1] list_all2_compose[OF r2] list_all2_compose[OF r3] r4)
  moreover have "retrieved eng r r'" if "(?R1 OO ?R2 OO ?R3 OO ?R4) r r'" for r r'
  proof -
    from that obtain a b c where a: "?R1 r a" and b: "?R2 a b" and c: "?R3 b c" and d: "?R4 c r'"
      by blast
    from a obtain n where n: "r ''filename'' = Some (Utf8 n)"
      and a': "a = r(''image_url'' \<mapsto> Utf8 (images_prefix @ n @ ''.jpeg''))"
      by (auto simp: image_url_row_Inr)
    from b a' obtain bs img where fetch: "download eng (images_prefix @ n @ ''.jpeg'') = Inr bs"
      "decode eng bs = Inr img" and b': "b = a(''image'' \<mapsto> Image img)"
      by (auto simp: image_row_Inr)
    from c b' have c': "c = b(''image_resized_small'' \<mapsto> Image (resize eng 32 32 img))"
      by (auto simp: resize_row_Inr)
    from d c' b' have "r' = c(''image_resized_large'' \<mapsto> Image (resize eng 256 256 img))"
      by (auto simp: resize_row_Inr)
    with n fetch a' b' c' show ?thesis
      unfolding retrieved_def by blast
  qed
  ultimately show "list_all2 (retrieved eng) (rows df) (rows df')"
    by (rule list_all2_mono)
  from with_column_schema(1)[OF s1] with_column_schema(1)[OF s2] with_column_schema(1)[OF s3]
    with_column_schema(1)[OF s4]
  show "schema df' = add_column ''image_resized_large'' (add_column ''image_resized_small''
           (add_column ''image'' (add_column ''image_url'' (schema df))))"
    by simp
  from s1 show "''filename'' \<in> set (schema df)"
    by (simp add: with_column_Inr_iff)
  from s1 s2 s3 s4 show "length (parts df') = length (parts df)"
    by (simp add: with_column_parts_length)
qed

lemma call_nonempty:
  assumes "images \<noteq> []" and "\<forall>img \<in> set images. shape img = shp"
  shows "call self images shp
       = and_then (argmax1 (softmax0 (model self (preprocess self images))))
           (traverse (getitem (category_map self)))"
proof -
  have "cast_fixed_shape shp images = Inr images"
    using assms(2) by (simp add: cast_fixed_shape_def list_all_iff)
  with assms(1) show ?thesis
    by (simp add: call_def Let_def and_then_def split: sum.splits)
qed

lemma argmax1_softmax0_total:
  assumes "\<forall>row \<in> set x. row \<noteq> [] \<and> length row \<le> n"
  shows "\<exists>ids. argmax1 (softmax0 x) = Inr ids \<and> length ids = length x \<and> (\<forall>k \<in> set ids. k < n)"
proof -
  have rows_ok: "row \<noteq> [] \<and> length row \<le> n" if "row \<in> set (softmax0 x)" for row
  proof -
    from that obtain row0 where "row0 \<in> set x" and "length row = length row0"
      by (blast dest: softmax0_rows)
    with assms show ?thesis by fastforce
  qed
  have "\<exists>ids. traverse argmax (softmax0 x) = Inr ids"
    by (rule traverse_total) (simp add: rows_ok argmax_total)
  then obtain ids where ids: "traverse argmax (softmax0 x) = Inr ids" ..
  then have rel: "list_all2 (\<lambda>row k. argmax row = Inr k) (softmax0 x) ids"
    by (simp add: traverse_Inr_iff)
  have "k < n" if "k \<in> set ids" for k
  proof -
    from that rel obtain row where "row \<in> set (softmax0 x)" and "argmax row = Inr k"
      by (blast dest: list_all2_right_mem)
    then show ?thesis using rows_ok argmax_in_range by fastforce
  qed
  moreover from rel have "length ids = length x"
    by (simp add: list_all2_lengthD[symmetric] length_softmax0)
  ultimately show ?thesis using ids by (auto simp: argmax1_def)
qed

lemma getitem_labels_total:
  assumes "\<forall>k \<in> set ids. k < length cm"
  shows "\<exists>labels. traverse (getitem cm) ids = Inr labels \<and> length labels = length ids"
proof -
  have "\<exists>labels. traverse (getitem cm) ids = Inr labels"
    by (rule traverse_total) (simp add: getitem_def assms)
  then show ?thesis by (auto dest: traverse_length)
qed

lemma getitem_labels_subset:
  assumes "traverse (getitem cm) ids = Inr labels"
  shows "set labels \<subseteq> set cm"
proof
  fix l assume "l \<in> set labels"
  moreover from assms have "list_all2 (\<lambda>k l. getitem cm k = Inr l) ids labels"
    by (simp add: traverse_Inr_iff)
  ultimately obtain k where "getitem cm k = Inr l"
    by (blast dest: list_all2_right_mem)
  then show "l \<in> set cm" by (rule getitem_mem)
qed

lemma call_labels_subset:
  assumes "call self images shp = Inr labels"
  shows "set labels \<subseteq> set (category_map self)"
proof (cases "images = []")
  case True
  with assms show ?thesis by (simp add: call_def)
next
  case False
  with assms obtain ids where "traverse (getitem (category_map self)) ids = Inr labels"
    by (auto simp: call_def Let_def split: sum.splits if_splits)
  then show ?thesis by (rule getitem_labels_subset)
qed

lemma call_succeeds:
  assumes "\<forall>img \<in> set images. shape img = shp"
    and "images \<noteq> [] \<Longrightarrow> length (model self (preprocess self images)) = length images
           \<and> (\<forall>row \<in> set (model self (preprocess self images)).
                 row \<noteq> [] \<and> length row \<le> length (category_map self))"
  shows "\<exists>labels. call self images shp = Inr labels \<and> length labels = length images"
proof (cases "images = []")
  case True
  then show ?thesis by (simp add: call_def)
next
  case False
  with assms(2) obtain ids where ids: "argmax1 (softmax0 (model self (preprocess self images))) = Inr ids"
    "length ids = length images" "\<forall>k \<in> set ids. k < length (category_map self)"
    using argmax1_softmax0_total[of "model self (preprocess self images)" "length (category_map self)"]
    by auto
  from getitem_labels_total[OF ids(3)] obtain labels where
    "traverse (getitem (category_map self)) ids = Inr labels" "length labels = length ids"
    by blast
  with ids show ?thesis
    by (simp add: call_nonempty[OF False assms(1)])
qed

lemma as_image_Inr_iff: "as_image v = Inr img \<longleftrightarrow> v = Image img"
  by (cases v) (simp_all add: as_image_def)

lemma evaluate_udf_Inr_iff:
  "evaluate (udf_ClassifyImage self (col c) shp) p = Inr vs \<longleftrightarrow>
     (\<exists>images labels. list_all2 (\<lambda>r img. r c = Some (Image img)) p images
        \<and> call self images shp = Inr labels \<and> vs = map Utf8 labels)"
proof -
  have "(\<lambda>r img. and_then (lookup c r) as_image = Inr img) = (\<lambda>r img. r c = Some (Image img))"
    by (auto simp: fun_eq_iff and_then_Inr_iff lookup_def as_image_Inr_iff split: option.splits)
  then have cells: "(and_then (traverse (lookup c) p) (traverse as_image) = Inr images)
      = list_all2 (\<lambda>r img. r c = Some (Image img)) p images" for images
    by (simp add: traverse_fuse traverse_Inr_iff)
  have "(evaluate (udf_ClassifyImage self (col c) shp) p = Inr vs)
      = (\<exists>images. and_then (traverse (lookup c) p) (traverse as_image) = Inr images
           \<and> (\<exists>labels. call self images shp = Inr labels \<and> vs = map Utf8 labels))"
    unfolding udf_ClassifyImage_def col_def by (auto simp: and_then_Inr_iff)
  then show ?thesis unfolding cells by blast
qed

lemma with_column_udf_rows:
  assumes "with_column c' (udf_ClassifyImage self (col c) shp) df = Inr df'"
  shows "list_all2 (\<lambda>r r'. \<exists>v. (\<exists>l \<in> set (category_map self). v = Utf8 l) \<and> r' = r(c' \<mapsto> v))
           (rows df) (rows df')"
  using assms
proof (rule with_column_rows)
  fix p vs
  assume ev: "evaluate (udf_ClassifyImage self (col c) shp) p = Inr vs" and len: "length vs = length p"
  from ev obtain images labels where "call self images shp = Inr labels" and vs: "vs = map Utf8 labels"
    unfolding evaluate_udf_Inr_iff by blast
  then have "set labels \<subseteq> set (category_map self)" by (blast dest: call_labels_subset)
  with vs len show "list_all2 (\<lambda>r v. \<exists>l \<in> set (category_map self). v = Utf8 l) p vs"
    by (auto simp: list_all2_conv_all_nth)
qed

lemma classify_rows:
  assumes "classify self df = Inr df'"
  shows "list_all2 (labelled self) (rows df) (rows df')"
    and "schema df' = add_column ''predictions_highres'' (add_column ''predictions_lowres'' (schema df))"
    and "length (parts df') = length (parts df)"
proof -
  from assms obtain d1 where
    s1: "with_column ''predictions_lowres''
           (udf_ClassifyImage self (col ''image_resized_small'') [32, 32, 3]) df = Inr d1" and
    s2: "with_column ''predictions_highres''
           (udf_ClassifyImage self (col ''image_resized_large'') [256, 256, 3]) d1 = Inr df'"
    by (auto simp: classify_def and_then_Inr_iff)
  let ?R1 = "\<lambda>r r'. \<exists>v. (\<exists>l \<in> set (category_map self). v = Utf8 l) \<and> r' = r(''predictions_lowres'' \<mapsto> v)"
  let ?R2 = "\<lambda>r r'. \<exists>v. (\<exists>l \<in> set (category_map self). v = Utf8 l) \<and> r' = r(''predictions_highres'' \<mapsto> v)"
  have "list_all2 (?R1 OO ?R2) (rows df) (rows df')"
    by (intro list_all2_compose[OF with_column_udf_rows[OF s1]] with_column_udf_rows[OF s2])
  moreover have "labelled self r r'" if "(?R1 OO ?R2) r r'" for r r'
    using that unfolding labelled_def by blast
  ultimately show "list_all2 (labelled self) (rows df) (rows df')"
    by (rule list_all2_mono)
  from with_column_schema(1)[OF s1] with_column_schema(1)[OF s2]
  show "schema df' = add_column ''predictions_highres'' (add_column ''predictions_lowres'' (schema df))"
    by simp
  from s1 s2 show "length (parts df') = length (parts df)"
    by (simp add: with_column_parts_length)
qed

section \<open>The pipeline as a whole\<close>

lemma rows_into_partitions:
  assumes "into_partitions k df = Inr df'"
  shows "rows df' = rows df" and "schema df' = schema df" and "length (parts df') = k"
  using assms
  by (auto simp: into_partitions_def rows_def concat_split_rows length_split_rows split: if_splits)

lemma inference_input_rows:
  assumes "inference_input eng src = Inr df"
  shows "\<exists>mid. list_all2 (retrieved eng) (filter has_single_object (take NUM_ROWS (rows src))) mid
           \<and> rows df = filter has_three_channels mid"
    and "schema df = add_column ''image_resized_large'' (add_column ''image_resized_small''
           (add_column ''image'' (add_column ''image_url'' (schema src))))"
    and "length (parts df) = 16"
    and "''filename'' \<in> set (schema src)" and "''object'' \<in> set (schema src)"
proof -
  from assms obtain d1 d2 d3 where
    s1: "prune_data src = Inr d1" and s2: "into_partitions 16 d1 = Inr d2" and
    s3: "retrieve_images eng d2 = Inr d3" and s4: "channel_filter d3 = Inr df"
    by (auto simp: inference_input_def and_then_Inr_iff)
  note p = prune_data_rows[OF s1] and q = rows_into_partitions[OF s2]
    and r = retrieve_images_rows[OF s3] and c = channel_filter_rows[OF s4]
  from r(1) have "list_all2 (retrieved eng) (filter has_single_object (take NUM_ROWS (rows src))) (rows d3)"
    by (simp add: q(1) p(1))
  with c(1) show "\<exists>mid. list_all2 (retrieved eng) (filter has_single_object (take NUM_ROWS (rows src))) mid
           \<and> rows df = filter has_three_channels mid"
    by blast
  show "schema df = add_column ''image_resized_large'' (add_column ''image_resized_small''
           (add_column ''image'' (add_column ''image_url'' (schema src))))"
    by (simp add: c(2) r(2) q(2) p(2))
  show "length (parts df) = 16" by (simp add: c(3) r(4) q(3))
  from r(3) show "''filename'' \<in> set (schema src)" by (simp add: q(2) p(2))
  show "''object'' \<in> set (schema src)" by (rule p(3))
qed

lemma inference_output_rows:
  assumes "inference_output eng self src = Inr df"
  shows "\<exists>fed. inference_input eng src = Inr fed \<and> list_all2 (labelled self) (rows fed) (rows df)
           \<and> schema df = add_column ''predictions_highres'' (add_column ''predictions_lowres'' (schema fed))
           \<and> length (parts df) = length (parts fed)"
proof -
  from assms obtain fed where fed: "inference_input eng src = Inr fed" and "classify self fed = Inr df"
    by (auto simp: inference_output_def and_then_Inr_iff)
  with classify_rows[of self fed df] show ?thesis by blast
qed

lemma select_Inr_iff:
  "select cs df = Inr df' \<longleftrightarrow>
     set cs \<subseteq> set (schema df)
     \<and> df' = \<lparr>schema = cs, parts = map (map (\<lambda>r. r |` set cs)) (parts df)\<rparr>"
  by (auto simp: select_def and_then_Inr_iff check_refs_Inr_iff)

lemma written_Inr_iff:
  "written eng self src = Inr files \<longleftrightarrow>
     (\<exists>df. inference_output eng self src = Inr df \<and> set output_columns \<subseteq> set (schema df)
        \<and> files = map (\<lambda>p. \<lparr>file_schema = output_columns,
                              file_rows = map (\<lambda>r. r |` set output_columns) p\<rparr>) (parts df))"
  by (auto simp: written_def and_then_Inr_iff select_Inr_iff write_parquet_def comp_def)

lemma read_parquet_written:
  assumes "ps \<noteq> []"
  shows "read_parquet (map (\<lambda>p. \<lparr>file_schema = cs, file_rows = f p\<rparr>) ps)
       = Inr \<lparr>schema = cs, parts = map f ps\<rparr>"
  using assms by (cases ps) (simp_all add: read_parquet_def comp_def)

lemma notebook_Inr_iff:
  "notebook eng self src = Inr out \<longleftrightarrow>
     (\<exists>df. inference_output eng self src = Inr df \<and> set output_columns \<subseteq> set (schema df)
        \<and> out = \<lparr>schema = output_columns,
                   parts = map (map (\<lambda>r. r |` set output_columns)) (parts df)\<rparr>)"
proof
  assume "notebook eng self src = Inr out"
  then obtain files where w: "written eng self src = Inr files" and rd: "read_parquet files = Inr out"
    by (auto simp: notebook_def and_then_Inr_iff)
  from w obtain df where df: "inference_output eng self src = Inr df"
    "set output_columns \<subseteq> set (schema df)"
    and files: "files = map (\<lambda>p. \<lparr>file_schema = output_columns,
                              file_rows = map (\<lambda>r. r |` set output_columns) p\<rparr>) (parts df)"
    unfolding written_Inr_iff by blast
  from inference_output_rows[OF df(1)] inference_input_rows(3) have "length (parts df) = 16"
    by auto
  then have "parts df \<noteq> []" by auto
  from rd read_parquet_written[OF this] have
    "out = \<lparr>schema = output_columns, parts = map (map (\<lambda>r. r |` set output_columns)) (parts df)\<rparr>"
    unfolding files by simp
  with df show "\<exists>df. inference_output eng self src = Inr df \<and> set output_columns \<subseteq> set (schema df)
        \<and> out = \<lparr>schema = output_columns,
                   parts = map (map (\<lambda>r. r |` set output_columns)) (parts df)\<rparr>"
    by blast
next
  assume "\<exists>df. inference_output eng self src = Inr df \<and> set output_columns \<subseteq> set (schema df)
        \<and> out = \<lparr>schema = output_columns,
                   parts = map (map (\<lambda>r. r |` set output_columns)) (parts df)\<rparr>"
  then obtain df where df: "inference_output eng self src = Inr df"
    "set output_columns \<subseteq> set (schema df)"
    and out: "out = \<lparr>schema = output_columns,
                   parts = map (map (\<lambda>r. r |` set output_columns)) (parts df)\<rparr>"
    by blast
  from inference_output_rows[OF df(1)] inference_input_rows(3) have "length (parts df) = 16"
    by auto
  then have ne: "parts df \<noteq> []" by auto
  from df have "written eng self src = Inr (map (\<lambda>p. \<lparr>file_schema = output_columns,
                              file_rows = map (\<lambda>r. r |` set output_columns) p\<rparr>) (parts df))"
    unfolding written_Inr_iff by blast
  then show "notebook eng self src = Inr out"
    by (simp add: notebook_def out read_parquet_written[OF ne])
qed

lemma set_add_column: "set (add_column c cs) = insert c (set cs)"
  by (auto simp: add_column_def)

lemma fed_row:
  assumes "inference_input eng src = Inr df" and "r \<in> set (rows df)"
  shows "\<exists>r0 n os b img.
           r0 \<in> set (take NUM_ROWS (rows src))
           \<and> r0 ''filename'' = Some (Utf8 n)
           \<and> r0 ''object'' = Some (ObjectList os) \<and> length os = 1
           \<and> download eng (images_prefix @ n @ ''.jpeg'') = Inr b \<and> decode eng b = Inr img
           \<and> channels img = 3
           \<and> r = r0(''image_url'' \<mapsto> Utf8 (images_prefix @ n @ ''.jpeg''),
                    ''image'' \<mapsto> Image img,
                    ''image_resized_small'' \<mapsto> Image (resize eng 32 32 img),
                    ''image_resized_large'' \<mapsto> Image (resize eng 256 256 img))"
proof -
  from inference_input_rows(1)[OF assms(1)] obtain mid where
    mid: "list_all2 (retrieved eng) (filter has_single_object (take NUM_ROWS (rows src))) mid"
    and fed: "rows df = filter has_three_channels mid" by blast
  from assms(2) fed have r: "r \<in> set mid" "has_three_channels r" by auto
  from mid r(1) obtain r0 where r0: "r0 \<in> set (filter has_single_object (take NUM_ROWS (rows src)))"
    and ret: "retrieved eng r0 r" by (blast dest: list_all2_right_mem)
  from r0 obtain os where os: "r0 ''object'' = Some (ObjectList os)" "length os = 1"
    and r0': "r0 \<in> set (take NUM_ROWS (rows src))"
    by (auto simp: has_single_object_def)
  from ret obtain n b img where n: "r0 ''filename'' = Some (Utf8 n)"
    and fetch: "download eng (images_prefix @ n @ ''.jpeg'') = Inr b" "decode eng b = Inr img"
    and r_eq: "r = r0(''image_url'' \<mapsto> Utf8 (images_prefix @ n @ ''.jpeg''),
                    ''image'' \<mapsto> Image img,
                    ''image_resized_small'' \<mapsto> Image (resize eng 32 32 img),
                    ''image_resized_large'' \<mapsto> Image (resize eng 256 256 img))"
    unfolding retrieved_def by blast
  from r(2) r_eq have "channels img = 3"
    by (simp add: has_three_channels_def)
  with r0' os n fetch r_eq show ?thesis by blast
qed

lemma output_row:
  assumes "inference_output eng self src = Inr df" and "r \<in> set (rows df)"
  shows "\<exists>fed r1 l1 l2.
           inference_input eng src = Inr fed \<and> r1 \<in> set (rows fed)
           \<and> l1 \<in> set (category_map self) \<and> l2 \<in> set (category_map self)
           \<and> r = r1(''predictions_lowres'' \<mapsto> Utf8 l1, ''predictions_highres'' \<mapsto> Utf8 l2)"
proof -
  from inference_output_rows[OF assms(1)] obtain fed where fed: "inference_input eng src = Inr fed"
    and rel: "list_all2 (labelled self) (rows fed) (rows df)" by blast
  from rel assms(2) obtain r1 where "r1 \<in> set (rows fed)" "labelled self r1 r"
    by (blast dest: list_all2_right_mem)
  with fed show ?thesis unfolding labelled_def by blast
qed

lemma output_schema:
  assumes "inference_output eng self src = Inr df"
  shows "set output_columns \<subseteq> set (schema df)"
proof -
  from inference_output_rows[OF assms] obtain fed where fed: "inference_input eng src = Inr fed"
    and sch: "schema df = add_column ''predictions_highres'' (add_column ''predictions_lowres'' (schema fed))"
    by blast
  note inference_input_rows(2,4,5)[OF fed]
  with sch show ?thesis by (simp add: output_columns_def set_add_column)
qed

lemma prune_data_succeeds:
  assumes "''object'' \<in> set (schema src)"
    and "\<And>r. r \<in> set (take NUM_ROWS (rows src)) \<Longrightarrow> \<exists>os. r ''object'' = Some (ObjectList os)"
  shows "\<exists>df. prune_data src = Inr df"
proof -
  have "where_df single_object (limit NUM_ROWS src)
      = Inr ((limit NUM_ROWS src)\<lparr>parts :=
               map (filter (\<lambda>r. single_object_row r = Inr (Boolean True))) (parts (limit NUM_ROWS src))\<rparr>)"
  proof (rule where_df_succeeds_rowwise[OF rowwise_single_object])
    show "set (refs single_object) \<subseteq> set (schema (limit NUM_ROWS src))"
      using assms(1) by (simp add: schema_limit)
    fix r assume "r \<in> set (rows (limit NUM_ROWS src))"
    then obtain os where "r ''object'' = Some (ObjectList os)"
      using assms(2) by (auto simp: rows_limit)
    then show "\<exists>b. single_object_row r = Inr (Boolean b)"
      by (simp add: single_object_row_Inr)
  qed
  then show ?thesis by (simp add: prune_data_def)
qed

lemma channel_filter_succeeds:
  assumes "''image'' \<in> set (schema df)"
    and "\<And>r. r \<in> set (rows df) \<Longrightarrow> \<exists>img. r ''image'' = Some (Image img)"
  shows "\<exists>df'. channel_filter df = Inr df'"
proof -
  have "where_df three_channels df
      = Inr (df\<lparr>parts := map (filter (\<lambda>r. three_channels_row r = Inr (Boolean True))) (parts df)\<rparr>)"
  proof (rule where_df_succeeds_rowwise[OF rowwise_three_channels])
    show "set (refs three_channels) \<subseteq> set (schema df)"
      using assms(1) by simp
    fix r assume "r \<in> set (rows df)"
    then obtain img where "r ''image'' = Some (Image img)"
      using assms(2) by blast
    then show "\<exists>b. three_channels_row r = Inr (Boolean b)"
      by (simp add: three_channels_row_Inr)
  qed
  then show ?thesis by (simp add: channel_filter_def)
qed

lemma retrieve_images_succeeds:
  assumes sch: "''filename'' \<in> set (schema df)"
    and fetch: "\<And>r. r \<in> set (rows df) \<Longrightarrow>
       \<exists>n b img. r ''filename'' = Some (Utf8 n)
          \<and> download eng (images_prefix @ n @ ''.jpeg'') = Inr b \<and> decode eng b = Inr img"
  shows "\<exists>df'. retrieve_images eng df = Inr df'"
proof -
  have "\<exists>d1. with_column ''image_url'' image_url_expr df = Inr d1"
  proof (rule with_column_succeeds_rowwise[OF rowwise_image_url])
    show "set (refs image_url_expr) \<subseteq> set (schema df)" using sch by simp
    fix r assume "r \<in> set (rows df)"
    from fetch[OF this] show "\<exists>v. image_url_row r = Inr v"
      by (auto simp: image_url_row_Inr)
  qed
  then obtain d1 where s1: "with_column ''image_url'' image_url_expr df = Inr d1" ..
  note r1 = with_column_rows_rowwise[OF rowwise_image_url s1]
  have "\<exists>d2. with_column ''image'' (image_decode eng (url_download eng (col ''image_url''))) d1 = Inr d2"
  proof (rule with_column_succeeds_rowwise[OF rowwise_image])
    show "set (refs (image_decode eng (url_download eng (col ''image_url'')))) \<subseteq> set (schema d1)"
      by (simp add: with_column_schema(1)[OF s1] set_add_column)
    fix r' assume "r' \<in> set (rows d1)"
    with r1 obtain r v where r: "r \<in> set (rows df)" "image_url_row r = Inr v"
      "r' = r(''image_url'' \<mapsto> v)" by (blast dest: list_all2_right_mem)
    from fetch[OF r(1)] r(2,3) show "\<exists>v. image_row eng r' = Inr v"
      by (auto simp: image_url_row_Inr image_row_Inr)
  qed
  then obtain d2 where
    s2: "with_column ''image'' (image_decode eng (url_download eng (col ''image_url''))) d1 = Inr d2" ..
  note r2 = with_column_rows_rowwise[OF rowwise_image s2]
  have img2: "\<exists>img. r ''image'' = Some (Image img)" if "r \<in> set (rows d2)" for r
  proof -
    from r2 that obtain r0 v where "image_row eng r0 = Inr v" "r = r0(''image'' \<mapsto> v)"
      by (blast dest: list_all2_right_mem)
    then show ?thesis by (auto simp: image_row_Inr)
  qed
  have "\<exists>d3. with_column ''image_resized_small'' (image_resize eng 32 32 (col ''image'')) d2 = Inr d3"
  proof (rule with_column_succeeds_rowwise[OF rowwise_resize])
    show "set (refs (image_resize eng 32 32 (col ''image''))) \<subseteq> set (schema d2)"
      by (simp add: with_column_schema(1)[OF s2] set_add_column)
    fix r assume "r \<in> set (rows d2)"
    from img2[OF this] show "\<exists>v. resize_row eng 32 32 r = Inr v"
      by (auto simp: resize_row_Inr)
  qed
  then obtain d3 where
    s3: "with_column ''image_resized_small'' (image_resize eng 32 32 (col ''image'')) d2 = Inr d3" ..
  note r3 = with_column_rows_rowwise[OF rowwise_resize s3]
  have "\<exists>d4. with_column ''image_resized_large'' (image_resize eng 256 256 (col ''image'')) d3 = Inr d4"
  proof (rule with_column_succeeds_rowwise[OF rowwise_resize])
    show "set (refs (image_resize eng 256 256 (col ''image''))) \<subseteq> set (schema d3)"
      by (simp add: with_column_schema(1)[OF s3] with_column_schema(1)[OF s2] set_add_column)
    fix r' assume "r' \<in> set (rows d3)"
    with r3 obtain r v where r: "r \<in> set (rows d2)" "r' = r(''image_resized_small'' \<mapsto> v)"
      by (blast dest: list_all2_right_mem)
    from img2[OF r(1)] r(2) show "\<exists>v. resize_row eng 256 256 r' = Inr v"
      by (auto simp: resize_row_Inr)
  qed
  then obtain d4 where
    s4: "with_column ''image_resized_large'' (image_resize eng 256 256 (col ''image'')) d3 = Inr d4" ..
  from s1 s2 s3 s4 have "retrieve_images eng df = Inr d4"
    by (simp add: retrieve_images_def)
  then show ?thesis ..
qed

lemma inference_input_succeeds:
  assumes sch: "''filename'' \<in> set (schema src)" "''object'' \<in> set (schema src)"
    and cells: "\<And>r. r \<in> set (take NUM_ROWS (rows src)) \<Longrightarrow>
       \<exists>n os b img. r ''filename'' = Some (Utf8 n) \<and> r ''object'' = Some (ObjectList os)
          \<and> download eng (images_prefix @ n @ ''.jpeg'') = Inr b \<and> decode eng b = Inr img"
  shows "\<exists>df. inference_input eng src = Inr df"
proof -
  have "\<exists>d1. prune_data src = Inr d1"
    using sch(2) by (rule prune_data_succeeds) (use cells in blast)
  then obtain d1 where s1: "prune_data src = Inr d1" ..
  note p = prune_data_rows[OF s1]
  obtain d2 where s2: "into_partitions 16 d1 = Inr d2"
    by (simp add: into_partitions_def)
  note q = rows_into_partitions[OF s2]
  have "\<exists>d3. retrieve_images eng d2 = Inr d3"
  proof (rule retrieve_images_succeeds)
    show "''filename'' \<in> set (schema d2)" using sch(1) by (simp add: q(2) p(2))
    fix r assume "r \<in> set (rows d2)"
    then have "r \<in> set (take NUM_ROWS (rows src))" by (simp add: q(1) p(1))
    from cells[OF this] show "\<exists>n b img. r ''filename'' = Some (Utf8 n)
          \<and> download eng (images_prefix @ n @ ''.jpeg'') = Inr b \<and> decode eng b = Inr img"
      by blast
  qed
  then obtain d3 where s3: "retrieve_images eng d2 = Inr d3" ..
  note r = retrieve_images_rows[OF s3]
  have "\<exists>d4. channel_filter d3 = Inr d4"
  proof (rule channel_filter_succeeds)
    show "''image'' \<in> set (schema d3)" by (simp add: r(2) set_add_column)
    fix r' assume "r' \<in> set (rows d3)"
    with r(1) obtain r0 where "retrieved eng r0 r'" by (blast dest: list_all2_right_mem)
    then show "\<exists>img. r' ''image'' = Some (Image img)"
      by (auto simp: retrieved_def)
  qed
  then obtain d4 where s4: "channel_filter d3 = Inr d4" ..
  from s1 s2 s3 s4 have "inference_input eng src = Inr d4"
    by (simp add: inference_input_def)
  then show ?thesis ..
qed

lemma with_column_udf_succeeds:
  assumes sch: "c \<in> set (schema df)"
    and cells: "\<And>r. r \<in> set (rows df) \<Longrightarrow> \<exists>img. r c = Some (Image img) \<and> shape img = shp"
    and net: "\<And>images. images \<noteq> [] \<Longrightarrow>
       length (model self (preprocess self images)) = length images
       \<and> (\<forall>row \<in> set (model self (preprocess self images)).
             row \<noteq> [] \<and> length row \<le> length (category_map self))"
  shows "\<exists>df'. with_column c' (udf_ClassifyImage self (col c) shp) df = Inr df'"
proof (rule with_column_succeeds)
  show "set (refs (udf_ClassifyImage self (col c) shp)) \<subseteq> set (schema df)"
    using sch by simp
  fix p assume p: "p \<in> set (parts df)"
  have "\<exists>images. list_all2 (\<lambda>r img. r c = Some (Image img) \<and> shape img = shp) p images"
  proof (rule list_all2_total)
    fix r assume "r \<in> set p"
    with p have "r \<in> set (rows df)" by (auto simp: rows_def)
    then show "\<exists>img. r c = Some (Image img) \<and> shape img = shp" by (rule cells)
  qed
  then obtain images where
    images: "list_all2 (\<lambda>r img. r c = Some (Image img) \<and> shape img = shp) p images" ..
  then have col: "list_all2 (\<lambda>r img. r c = Some (Image img)) p images"
    by (rule list_all2_mono) simp
  from images have "\<forall>img \<in> set images. shape img = shp"
    by (blast dest: list_all2_right_mem)
  then obtain labels where labels: "call self images shp = Inr labels" "length labels = length images"
    using call_succeeds[of images shp self] net by blast
  from col labels(1) have "evaluate (udf_ClassifyImage self (col c) shp) p = Inr (map Utf8 labels)"
    unfolding evaluate_udf_Inr_iff by blast
  moreover from images labels(2) have "length (map Utf8 labels) = length p"
    by (simp add: list_all2_lengthD)
  ultimately show "\<exists>vs. evaluate (udf_ClassifyImage self (col c) shp) p = Inr vs \<and> length vs = length p"
    by blast
qed

lemma classify_succeeds:
  assumes sch: "''image_resized_small'' \<in> set (schema df)" "''image_resized_large'' \<in> set (schema df)"
    and cells: "\<And>r. r \<in> set (rows df) \<Longrightarrow>
       \<exists>small large. r ''image_resized_small'' = Some (Image small) \<and> shape small = [32, 32, 3]
          \<and> r ''image_resized_large'' = Some (Image large) \<and> shape large = [256, 256, 3]"
    and net: "\<And>images. images \<noteq> [] \<Longrightarrow>
       length (model self (preprocess self images)) = length images
       \<and> (\<forall>row \<in> set (model self (preprocess self images)).
             row \<noteq> [] \<and> length row \<le> length (category_map self))"
  shows "\<exists>df'. classify self df = Inr df'"
proof -
  have "\<exists>d1. with_column ''predictions_lowres''
           (udf_ClassifyImage self (col ''image_resized_small'') [32, 32, 3]) df = Inr d1"
    using sch(1)
  proof (rule with_column_udf_succeeds)
    fix r assume "r \<in> set (rows df)"
    from cells[OF this]
    show "\<exists>img. r ''image_resized_small'' = Some (Image img) \<and> shape img = [32, 32, 3]" by blast
  qed (rule net)
  then obtain d1 where s1: "with_column ''predictions_lowres''
           (udf_ClassifyImage self (col ''image_resized_small'') [32, 32, 3]) df = Inr d1" ..
  note r1 = with_column_udf_rows[OF s1]
  have "\<exists>d2. with_column ''predictions_highres''
           (udf_ClassifyImage self (col ''image_resized_large'') [256, 256, 3]) d1 = Inr d2"
  proof (rule with_column_udf_succeeds)
    show "''image_resized_large'' \<in> set (schema d1)"
      using sch(2) by (simp add: with_column_schema(1)[OF s1] set_add_column)
    fix r' assume "r' \<in> set (rows d1)"
    with r1 obtain r v where r: "r \<in> set (rows df)" "r' = r(''predictions_lowres'' \<mapsto> v)"
      by (blast dest: list_all2_right_mem)
    from cells[OF r(1)] r(2)
    show "\<exists>img. r' ''image_resized_large'' = Some (Image img) \<and> shape img = [256, 256, 3]"
      by auto
  qed (rule net)
  then obtain d2 where s2: "with_column ''predictions_highres''
           (udf_ClassifyImage self (col ''image_resized_large'') [256, 256, 3]) d1 = Inr d2" ..
  from s1 s2 have "classify self df = Inr d2" by (simp add: classify_def)
  then show ?thesis ..
qed

lemma shape_resize: "shape (resize eng w h img) = [h, w, channels img]"
  by (simp add: shape_def resize_def)

lemma notebook_succeeds:
  assumes sch: "''filename'' \<in> set (schema src)" "''object'' \<in> set (schema src)"
    and cells: "\<And>r. r \<in> set (take NUM_ROWS (rows src)) \<Longrightarrow>
       \<exists>n os b img. r ''filename'' = Some (Utf8 n) \<and> r ''object'' = Some (ObjectList os)
          \<and> download eng (images_prefix @ n @ ''.jpeg'') = Inr b \<and> decode eng b = Inr img"
    and net: "\<And>images. images \<noteq> [] \<Longrightarrow>
       length (model self (preprocess self images)) = length images
       \<and> (\<forall>row \<in> set (model self (preprocess self images)).
             row \<noteq> [] \<and> length row \<le> length (category_map self))"
  shows "\<exists>out. notebook eng self src = Inr out"
proof -
  from inference_input_succeeds[OF sch cells] obtain fed where
    fed: "inference_input eng src = Inr fed" by blast
  have "\<exists>df. classify self fed = Inr df"
  proof (rule classify_succeeds)
    show "''image_resized_small'' \<in> set (schema fed)" "''image_resized_large'' \<in> set (schema fed)"
      by (simp_all add: inference_input_rows(2)[OF fed] set_add_column)
    fix r assume "r \<in> set (rows fed)"
    from fed_row[OF fed this] obtain img where "channels img = 3"
      "r ''image_resized_small'' = Some (Image (resize eng 32 32 img))"
      "r ''image_resized_large'' = Some (Image (resize eng 256 256 img))"
      by auto
    then show "\<exists>small large. r ''image_resized_small'' = Some (Image small) \<and> shape small = [32, 32, 3]
          \<and> r ''image_resized_large'' = Some (Image large) \<and> shape large = [256, 256, 3]"
      by (simp add: shape_resize)
  qed (rule net)
  then obtain df where "classify self fed = Inr df" ..
  with fed have df: "inference_output eng self src = Inr df"
    by (simp add: inference_output_def)
  from df output_schema[OF df] show ?thesis
    unfolding notebook_Inr_iff by blast
qed

section \<open>End to end\<close>

lemma notebook_rows:
  assumes "notebook eng self src = Inr out"
  shows "\<exists>mid lab.
           list_all2 (retrieved eng) (filter has_single_object (take NUM_ROWS (rows src))) mid
           \<and> list_all2 (labelled self) (filter has_three_channels mid) lab
           \<and> rows out = map (\<lambda>r. r |` set output_columns) lab"
    and "schema out = output_columns"
proof -
  from assms obtain df where df: "inference_output eng self src = Inr df"
    and out: "out = \<lparr>schema = output_columns,
                   parts = map (map (\<lambda>r. r |` set output_columns)) (parts df)\<rparr>"
    unfolding notebook_Inr_iff by blast
  from inference_output_rows[OF df] obtain fed where fed: "inference_input eng src = Inr fed"
    and lab: "list_all2 (labelled self) (rows fed) (rows df)" by blast
  from inference_input_rows(1)[OF fed] obtain mid where
    "list_all2 (retrieved eng) (filter has_single_object (take NUM_ROWS (rows src))) mid"
    "rows fed = filter has_three_channels mid" by blast
  moreover from out have "rows out = map (\<lambda>r. r |` set output_columns) (rows df)"
    by (simp add: rows_def map_concat)
  ultimately show "\<exists>mid lab.
           list_all2 (retrieved eng) (filter has_single_object (take NUM_ROWS (rows src))) mid
           \<and> list_all2 (labelled self) (filter has_three_channels mid) lab
           \<and> rows out = map (\<lambda>r. r |` set output_columns) lab"
    using lab by auto
  from out show "schema out = output_columns" by simp
qed

lemma retrieved_image:
  assumes "retrieved eng r r'"
  shows "\<exists>b img. decode eng b = Inr img \<and> r' ''image'' = Some (Image img)"
  using assms unfolding retrieved_def by auto

lemma retrieved_keeps:
  assumes "retrieved eng r r'"
  shows "r' ''filename'' = r ''filename''" and "r' ''object'' = r ''object''"
  using assms unfolding retrieved_def by auto

lemma labelled_keeps:
  assumes "labelled self r r'"
  shows "r' ''filename'' = r ''filename''" and "r' ''object'' = r ''object''"
    and "r' ''image_url'' = r ''image_url''" and "r' ''image'' = r ''image''"
    and "r' ''image_resized_small'' = r ''image_resized_small''"
    and "r' ''image_resized_large'' = r ''image_resized_large''"
  using assms unfolding labelled_def by auto

lemma notebook_row_count:
  assumes ok: "notebook eng self src = Inr out"
    and rgb: "\<And>b img. decode eng b = Inr img \<Longrightarrow> channels img = 3"
  shows "count_rows out = length (filter has_single_object (take NUM_ROWS (rows src)))"
    and "list_all2 (\<lambda>r0 r. r ''filename'' = r0 ''filename'')
           (filter has_single_object (take NUM_ROWS (rows src))) (rows out)"
proof -
  from notebook_rows(1)[OF ok] obtain mid lab where
    mid: "list_all2 (retrieved eng) (filter has_single_object (take NUM_ROWS (rows src))) mid"
    and lab: "list_all2 (labelled self) (filter has_three_channels mid) lab"
    and out: "rows out = map (\<lambda>r. r |` set output_columns) lab" by blast
  have "has_three_channels r'" if "r' \<in> set mid" for r'
  proof -
    from mid that obtain r where "retrieved eng r r'" by (blast dest: list_all2_right_mem)
    from retrieved_image[OF this] rgb show ?thesis
      unfolding has_three_channels_def by blast
  qed
  then have all: "filter has_three_channels mid = mid" by simp
  from mid lab out show "count_rows out = length (filter has_single_object (take NUM_ROWS (rows src)))"
    unfolding all by (simp add: count_rows_def list_all2_lengthD)
  have "list_all2 (retrieved eng OO labelled self)
          (filter has_single_object (take NUM_ROWS (rows src))) lab"
    using mid lab unfolding all by (rule list_all2_compose)
  then have "list_all2 (\<lambda>r0 l. l ''filename'' = r0 ''filename'')
          (filter has_single_object (take NUM_ROWS (rows src))) lab"
    by (rule list_all2_mono) (auto simp: retrieved_keeps(1) labelled_keeps(1))
  then show "list_all2 (\<lambda>r0 r. r ''filename'' = r0 ''filename'')
           (filter has_single_object (take NUM_ROWS (rows src))) (rows out)"
    unfolding out by (simp add: list_all2_map2 output_columns_def restrict_map_def)
qed

lemma notebook_predictions:
  assumes "notebook eng self src = Inr out" and "r \<in> set (rows out)"
  shows "\<exists>l1 l2. l1 \<in> set (category_map self) \<and> l2 \<in> set (category_map self)
           \<and> r ''predictions_lowres'' = Some (Utf8 l1) \<and> r ''predictions_highres'' = Some (Utf8 l2)"
proof -
  from notebook_rows(1)[OF assms(1)] obtain mid lab where
    lab: "list_all2 (labelled self) (filter has_three_channels mid) lab"
    and out: "rows out = map (\<lambda>r. r |` set output_columns) lab" by blast
  from assms(2) out obtain l where l: "l \<in> set lab" "r = l |` set output_columns" by auto
  from lab l(1) obtain m where "labelled self m l" by (blast dest: list_all2_right_mem)
  then obtain l1 l2 where "l1 \<in> set (category_map self)" "l2 \<in> set (category_map self)"
    "l = m(''predictions_lowres'' \<mapsto> Utf8 l1, ''predictions_highres'' \<mapsto> Utf8 l2)"
    unfolding labelled_def by blast
  with l(2) show ?thesis by (auto simp: output_columns_def)
qed

lemma written_row:
  assumes "written eng self src = Inr files" and "f \<in> set files" and "w \<in> set (file_rows f)"
  shows "file_schema f = output_columns"
    and "\<exists>df r. inference_output eng self src = Inr df \<and> r \<in> set (rows df)
           \<and> w = r |` set output_columns"
proof -
  from assms(1) obtain df where df: "inference_output eng self src = Inr df"
    and files: "files = map (\<lambda>p. \<lparr>file_schema = output_columns,
                              file_rows = map (\<lambda>r. r |` set output_columns) p\<rparr>) (parts df)"
    unfolding written_Inr_iff by blast
  from assms(2) files obtain p where p: "p \<in> set (parts df)"
    "f = \<lparr>file_schema = output_columns, file_rows = map (\<lambda>r. r |` set output_columns) p\<rparr>"
    by auto
  from p(2) show "file_schema f = output_columns" by simp
  from assms(3) p(2) obtain r where "r \<in> set p" "w = r |` set output_columns" by auto
  with p(1) df show "\<exists>df r. inference_output eng self src = Inr df \<and> r \<in> set (rows df)
           \<and> w = r |` set output_columns"
    by (auto simp: rows_def)
qed

lemma written_of_notebook:
  assumes "notebook eng self src = Inr out"
  shows "\<exists>files. written eng self src = Inr files \<and> files \<noteq> []
           \<and> rows out = concat (map file_rows files)"
proof -
  from assms obtain files where w: "written eng self src = Inr files" and rd: "read_parquet files = Inr out"
    by (auto simp: notebook_def and_then_Inr_iff)
  from rd have "files \<noteq> [] \<and> rows out = concat (map file_rows files)"
    by (auto simp: read_parquet_def rows_def split: list.splits)
  with w show ?thesis by blast
qed

lemma stub_notebook_succeeds:
  assumes "''filename'' \<in> set (schema src)" "''object'' \<in> set (schema src)"
    and "\<And>r. r \<in> set (take NUM_ROWS (rows src)) \<Longrightarrow>
           \<exists>n os. r ''filename'' = Some (Utf8 n) \<and> r ''object'' = Some (ObjectList os)"
  shows "\<exists>out. notebook stub_engine stub_classifier src = Inr out"
proof (rule notebook_succeeds[OF assms(1,2)])
  fix r assume "r \<in> set (take NUM_ROWS (rows src))"
  from assms(3)[OF this]
  show "\<exists>n os b img. r ''filename'' = Some (Utf8 n) \<and> r ''object'' = Some (ObjectList os)
          \<and> download stub_engine (images_prefix @ n @ ''.jpeg'') = Inr b
          \<and> decode stub_engine b = Inr img"
    by (auto simp: stub_engine_def)
next
  fix images :: "image_array list"
  show "length (model stub_classifier (preprocess stub_classifier images)) = length images
       \<and> (\<forall>row \<in> set (model stub_classifier (preprocess stub_classifier images)).
             row \<noteq> [] \<and> length row \<le> length (category_map stub_classifier))"
    by (simp add: stub_classifier_def)
qed

lemma abc_rows:
  "rows abc_table = [source_row ''a'' [a_detection], source_row ''b'' [a_detection],
                     source_row ''c'' [a_detection]]"
  "rows abc_table_crowded = [source_row ''a'' [a_detection], source_row ''b'' [a_detection, a_detection],
                     source_row ''c'' [a_detection]]"
  by (simp_all add: rows_def abc_table_def abc_table_crowded_def)

lemma source_row_cells [simp]:
  "source_row n os ''filename'' = Some (Utf8 n)"
  "source_row n os ''object'' = Some (ObjectList os)"
  by (simp_all add: source_row_def)

lemma has_single_object_source_row [simp]:
  "has_single_object (source_row n os) = (length os = 1)"
  by (simp add: has_single_object_def)

lemma abc_notebook_succeeds:
  "\<exists>out. notebook stub_engine stub_classifier abc_table = Inr out"
  "\<exists>out. notebook stub_engine stub_classifier abc_table_crowded = Inr out"
proof -
  show "\<exists>out. notebook stub_engine stub_classifier abc_table = Inr out"
  proof (rule stub_notebook_succeeds)
    fix r assume "r \<in> set (take NUM_ROWS (rows abc_table))"
    then have "r \<in> set (rows abc_table)" by (rule in_set_takeD)
    then show "\<exists>n os. r ''filename'' = Some (Utf8 n) \<and> r ''object'' = Some (ObjectList os)"
      by (auto simp: abc_rows)
  qed (simp_all add: abc_table_def)
  show "\<exists>out. notebook stub_engine stub_classifier abc_table_crowded = Inr out"
  proof (rule stub_notebook_succeeds)
    fix r assume "r \<in> set (take NUM_ROWS (rows abc_table_crowded))"
    then have "r \<in> set (rows abc_table_crowded)" by (rule in_set_takeD)
    then show "\<exists>n os. r ''filename'' = Some (Utf8 n) \<and> r ''object'' = Some (ObjectList os)"
      by (auto simp: abc_rows)
  qed (simp_all add: abc_table_crowded_def)
qed

lemma stub_decode_rgb: "decode stub_engine b = Inr img \<Longrightarrow> channels img = 3"
  by (auto simp: stub_engine_def blank_def)

text \<open>
  C3, as stated, fails. The test doubles are those of the claim (three rows named \<open>a\<close>,
  \<open>b\<close>, \<open>c\<close>; every image decodes to the same 4 by 4 by 3 array; the classifier
  only knows \<open>cat\<close>), but row \<open>b\<close> carries two objects: the filter on the length of
  \<open>object\<close> drops it, and the output read back has two rows.
\<close>

theorem crowded_table_loses_a_row:
  "count_rows abc_table_crowded = 3
   \<and> rows abc_table_crowded
       = [source_row ''a'' [a_detection], source_row ''b'' [a_detection, a_detection],
          source_row ''c'' [a_detection]]
   \<and> map_sum id count_rows (notebook stub_engine stub_classifier abc_table_crowded) = Inr 2"
proof -
  from abc_notebook_succeeds(2) obtain out where
    out: "notebook stub_engine stub_classifier abc_table_crowded = Inr out" ..
  from notebook_row_count(1)[OF out stub_decode_rgb]
  have "count_rows out = 2"
    by (simp add: abc_rows NUM_ROWS_def)
  with out show ?thesis
    by (simp add: count_rows_def abc_rows)
qed

text \<open>
  C3, amended. For a source table of three rows with the filenames \<open>a\<close>, \<open>b\<close>, \<open>c\<close>
  in which every row has exactly one object, an engine whose fetch succeeds and whose
  decoder returns one constant 4 by 4 by 3 array, and a classifier whose only category is
  \<open>cat\<close>, the notebook runs to the end, and the output read back has three rows, with
  the three filenames in order and \<open>cat\<close> in both prediction columns of every row.
\<close>

theorem three_rows_end_to_end:
  assumes filenames: "map (\<lambda>r. r ''filename'') (rows src)
                        = [Some (Utf8 ''a''), Some (Utf8 ''b''), Some (Utf8 ''c'')]"
    and columns: "''filename'' \<in> set (schema src)" "''object'' \<in> set (schema src)"
    and objects: "\<forall>r \<in> set (rows src). \<exists>os. r ''object'' = Some (ObjectList os) \<and> length os = 1"
    and fetched: "\<forall>u. \<exists>b. download eng u = Inr b"
    and decoded: "\<forall>b. decode eng b = Inr t" "shape t = [4, 4, 3]"
    and cat: "category_map self = [''cat'']"
    and net: "\<forall>images. images \<noteq> [] \<longrightarrow>
                length (model self (preprocess self images)) = length images
                \<and> (\<forall>row \<in> set (model self (preprocess self images)). length row = 1)"
  shows "\<exists>out. notebook eng self src = Inr out \<and> count_rows out = 3
           \<and> map (\<lambda>r. r ''filename'') (rows out) = [Some (Utf8 ''a''), Some (Utf8 ''b''), Some (Utf8 ''c'')]
           \<and> (\<forall>r \<in> set (rows out).
                 r ''predictions_lowres'' = Some (Utf8 ''cat'')
                 \<and> r ''predictions_highres'' = Some (Utf8 ''cat''))"
proof -
  from filenames have "length (map (\<lambda>r. r ''filename'') (rows src))
      = length [Some (Utf8 ''a''), Some (Utf8 ''b''), Some (Utf8 ''c'')]"
    by (rule arg_cong)
  then have three: "length (rows src) = 3" by simp
  then have all: "take NUM_ROWS (rows src) = rows src"
    by (simp add: NUM_ROWS_def)
  from objects have single: "filter has_single_object (rows src) = rows src"
    by (simp add: has_single_object_def)
  have "\<exists>out. notebook eng self src = Inr out"
  proof (rule notebook_succeeds[OF columns])
    fix r assume "r \<in> set (take NUM_ROWS (rows src))"
    then have r: "r \<in> set (rows src)" by (rule in_set_takeD)
    then have "r ''filename'' \<in> set (map (\<lambda>r. r ''filename'') (rows src))" by simp
    then obtain n where "r ''filename'' = Some (Utf8 n)"
      unfolding filenames by auto
    with r objects fetched decoded(1)
    show "\<exists>n os b img. r ''filename'' = Some (Utf8 n) \<and> r ''object'' = Some (ObjectList os)
          \<and> download eng (images_prefix @ n @ ''.jpeg'') = Inr b \<and> decode eng b = Inr img"
      by blast
  next
    fix images :: "image_array list"
    assume "images \<noteq> []"
    with net have "length (model self (preprocess self images)) = length images"
      and "\<forall>row \<in> set (model self (preprocess self images)). length row = 1"
      by blast+
    with cat
    show "length (model self (preprocess self images)) = length images
       \<and> (\<forall>row \<in> set (model self (preprocess self images)).
             row \<noteq> [] \<and> length row \<le> length (category_map self))"
      by fastforce
  qed
  then obtain out where out: "notebook eng self src = Inr out" ..
  have rgb: "channels img = 3" if "decode eng b = Inr img" for b img
  proof -
    from that decoded(1) have "img = t" by simp
    with decoded(2) show ?thesis by (simp add: shape_def)
  qed
  from notebook_row_count[OF out rgb]
  have count: "count_rows out = 3"
    and names: "list_all2 (\<lambda>r0 r. r ''filename'' = r0 ''filename'') (rows src) (rows out)"
    by (simp_all add: all single three)
  from names have "map (\<lambda>r. r ''filename'') (rows out) = map (\<lambda>r. r ''filename'') (rows src)"
    by (induction rule: list_all2_induct) simp_all
  with filenames have kept: "map (\<lambda>r. r ''filename'') (rows out)
      = [Some (Utf8 ''a''), Some (Utf8 ''b''), Some (Utf8 ''c'')]" by simp
  have preds: "\<forall>r \<in> set (rows out).
      r ''predictions_lowres'' = Some (Utf8 ''cat'') \<and> r ''predictions_highres'' = Some (Utf8 ''cat'')"
  proof
    fix r assume "r \<in> set (rows out)"
    from notebook_predictions[OF out this] cat
    show "r ''predictions_lowres'' = Some (Utf8 ''cat'') \<and> r ''predictions_highres'' = Some (Utf8 ''cat'')"
      by auto
  qed
  show ?thesis by (intro exI[of _ out] conjI out count kept preds)
qed

theorem three_rows_end_to_end_witness:
  "\<exists>out. notebook stub_engine stub_classifier abc_table = Inr out \<and> count_rows out = 3
     \<and> map (\<lambda>r. r ''filename'') (rows out) = [Some (Utf8 ''a''), Some (Utf8 ''b''), Some (Utf8 ''c'')]
     \<and> list_all (\<lambda>r. r ''predictions_lowres'' = Some (Utf8 ''cat'')
                     \<and> r ''predictions_highres'' = Some (Utf8 ''cat'')) (rows out)"
proof -
  have h1: "map (\<lambda>r. r ''filename'') (rows abc_table)
              = [Some (Utf8 ''a''), Some (Utf8 ''b''), Some (Utf8 ''c'')]"
    by (simp add: abc_rows)
  have h2: "''filename'' \<in> set (schema abc_table)" and h3: "''object'' \<in> set (schema abc_table)"
    by (simp_all add: abc_table_def)
  have h4: "\<forall>r \<in> set (rows abc_table). \<exists>os. r ''object'' = Some (ObjectList os) \<and> length os = 1"
    by (simp add: abc_rows)
  have h5: "\<forall>u. \<exists>b. download stub_engine u = Inr b"
    and h6: "\<forall>b. decode stub_engine b = Inr (blank 4 4 3)"
    by (simp_all add: stub_engine_def)
  have h7: "shape (blank 4 4 3) = [4, 4, 3]"
    by (simp add: shape_def blank_def)
  have h8: "category_map stub_classifier = [''cat'']"
    by (simp add: stub_classifier_def)
  have h9: "\<forall>images. images \<noteq> [] \<longrightarrow>
                length (model stub_classifier (preprocess stub_classifier images)) = length images
                \<and> (\<forall>row \<in> set (model stub_classifier (preprocess stub_classifier images)).
                      length row = 1)"
    by (simp add: stub_classifier_def)
  from three_rows_end_to_end [OF h1 h2 h3 h4 h5 h6 h7 h8 h9] show ?thesis
    by (simp add: list_all_iff)
qed

lemma notebook_stages:
  assumes "notebook eng self src = Inr out"
  shows "\<exists>fed df files. inference_input eng src = Inr fed \<and> inference_output eng self src = Inr df
           \<and> written eng self src = Inr files"
proof -
  from written_of_notebook[OF assms] obtain files where "written eng self src = Inr files" by blast
  moreover then obtain df where "inference_output eng self src = Inr df"
    unfolding written_Inr_iff by blast
  moreover then obtain fed where "inference_input eng src = Inr fed"
    by (blast dest: inference_output_rows)
  ultimately show ?thesis by blast
qed

lemma inference_input_row_count:
  assumes ok: "inference_input eng src = Inr fed"
    and rgb: "\<And>b img. decode eng b = Inr img \<Longrightarrow> channels img = 3"
  shows "length (rows fed) = length (filter has_single_object (take NUM_ROWS (rows src)))"
proof -
  from inference_input_rows(1)[OF ok] obtain mid where
    mid: "list_all2 (retrieved eng) (filter has_single_object (take NUM_ROWS (rows src))) mid"
    and fed: "rows fed = filter has_three_channels mid" by blast
  have "has_three_channels r'" if "r' \<in> set mid" for r'
  proof -
    from mid that obtain r where "retrieved eng r r'" by (blast dest: list_all2_right_mem)
    from retrieved_image[OF this] rgb show ?thesis
      unfolding has_three_channels_def by blast
  qed
  then have "filter has_three_channels mid = mid" by simp
  with mid fed show ?thesis by (simp add: list_all2_lengthD)
qed

lemma unfiltered_row:
  assumes "retrieve_images eng df0 = Inr df" and "r \<in> set (rows df)"
  shows "\<exists>n img. r ''filename'' = Some (Utf8 n)
           \<and> r ''image_url'' = Some (Utf8 (images_prefix @ n @ ''.jpeg''))
           \<and> r ''image'' = Some (Image img)
           \<and> r ''image_resized_small'' = Some (Image (resize eng 32 32 img))
           \<and> r ''image_resized_large'' = Some (Image (resize eng 256 256 img))"
proof -
  from retrieve_images_rows(1)[OF assms(1)] assms(2) obtain r0 where "retrieved eng r0 r"
    by (blast dest: list_all2_right_mem)
  then show ?thesis unfolding retrieved_def by auto
qed

lemma fed_row_cells:
  assumes "inference_input eng src = Inr fed" and "r \<in> set (rows fed)"
  shows "\<exists>n os img. r ''filename'' = Some (Utf8 n)
           \<and> r ''object'' = Some (ObjectList os) \<and> length os = 1
           \<and> r ''image_url'' = Some (Utf8 (images_prefix @ n @ ''.jpeg''))
           \<and> r ''image'' = Some (Image img) \<and> channels img = 3
           \<and> r ''image_resized_small'' = Some (Image (resize eng 32 32 img))
           \<and> r ''image_resized_large'' = Some (Image (resize eng 256 256 img))"
proof -
  from fed_row[OF assms] obtain r0 n os b img where
    "r0 ''filename'' = Some (Utf8 n)" "r0 ''object'' = Some (ObjectList os)" "length os = 1"
    "channels img = 3"
    "r = r0(''image_url'' \<mapsto> Utf8 (images_prefix @ n @ ''.jpeg''),
            ''image'' \<mapsto> Image img,
            ''image_resized_small'' \<mapsto> Image (resize eng 32 32 img),
            ''image_resized_large'' \<mapsto> Image (resize eng 256 256 img))"
    by blast
  then show ?thesis by auto
qed

lemma output_row_cells:
  assumes "inference_output eng self src = Inr df" and "r \<in> set (rows df)"
  shows "\<exists>n os img l1 l2. r ''filename'' = Some (Utf8 n)
           \<and> r ''object'' = Some (ObjectList os) \<and> length os = 1
           \<and> r ''image_url'' = Some (Utf8 (images_prefix @ n @ ''.jpeg''))
           \<and> r ''image'' = Some (Image img) \<and> channels img = 3
           \<and> r ''image_resized_small'' = Some (Image (resize eng 32 32 img))
           \<and> r ''image_resized_large'' = Some (Image (resize eng 256 256 img))
           \<and> r ''predictions_lowres'' = Some (Utf8 l1) \<and> r ''predictions_highres'' = Some (Utf8 l2)"
proof -
  from output_row[OF assms] obtain fed r1 l1 l2 where fed: "inference_input eng src = Inr fed"
    "r1 \<in> set (rows fed)"
    and r: "r = r1(''predictions_lowres'' \<mapsto> Utf8 l1, ''predictions_highres'' \<mapsto> Utf8 l2)"
    by blast
  from fed_row_cells[OF fed] r show ?thesis by auto
qed

lemma notebook_row_cells:
  assumes "notebook eng self src = Inr out" and "r \<in> set (rows out)"
  shows "\<exists>n os l1 l2. r ''filename'' = Some (Utf8 n)
           \<and> r ''object'' = Some (ObjectList os) \<and> length os = 1
           \<and> r ''image_url'' = Some (Utf8 (images_prefix @ n @ ''.jpeg''))
           \<and> r ''predictions_lowres'' = Some (Utf8 l1) \<and> r ''predictions_highres'' = Some (Utf8 l2)"
proof -
  from assms(1) obtain df where df: "inference_output eng self src = Inr df"
    and out: "out = \<lparr>schema = output_columns,
                   parts = map (map (\<lambda>r. r |` set output_columns)) (parts df)\<rparr>"
    unfolding notebook_Inr_iff by blast
  from out assms(2) obtain r1 where r1: "r1 \<in> set (rows df)" "r = r1 |` set output_columns"
    by (auto simp: rows_def)
  from output_row_cells[OF df r1(1)] r1(2) show ?thesis
    by (auto simp: output_columns_def)
qed

section \<open>What the stages leave in the table\<close>

lemma abc_first_row:
  assumes "list_all2 (\<lambda>r0 r. r ''filename'' = r0 ''filename'') (rows abc_table) rs"
  shows "\<exists>r \<in> set rs. r ''filename'' = Some (Utf8 ''a'')"
  using assms by (auto simp: abc_rows list_all2_Cons1)

lemma abc_stub_run:
  "\<exists>fed df files out.
     inference_input stub_engine abc_table = Inr fed
     \<and> inference_output stub_engine stub_classifier abc_table = Inr df
     \<and> written stub_engine stub_classifier abc_table = Inr files
     \<and> notebook stub_engine stub_classifier abc_table = Inr out
     \<and> length (rows fed) = 3
     \<and> (\<exists>r \<in> set (rows out). r ''filename'' = Some (Utf8 ''a''))"
proof -
  from abc_notebook_succeeds(1) obtain out where
    out: "notebook stub_engine stub_classifier abc_table = Inr out" ..
  from notebook_stages[OF out] obtain fed df files where
    st: "inference_input stub_engine abc_table = Inr fed"
    "inference_output stub_engine stub_classifier abc_table = Inr df"
    "written stub_engine stub_classifier abc_table = Inr files" by blast
  have keep: "filter has_single_object (take NUM_ROWS (rows abc_table)) = rows abc_table"
    by (simp add: abc_rows NUM_ROWS_def)
  from inference_input_row_count[OF st(1) stub_decode_rgb]
  have "length (rows fed) = 3" by (simp add: keep) (simp add: abc_rows)
  moreover from notebook_row_count(2)[OF out stub_decode_rgb]
  have "\<exists>r \<in> set (rows out). r ''filename'' = Some (Utf8 ''a'')"
    unfolding keep by (rule abc_first_row)
  ultimately show ?thesis using out st by blast
qed

text \<open>
  C9. In every row of the table, from the stage that derives it onwards (the table
  after the four derivations, the table the inference stages read, the one they leave,
  and the output read back), \<open>image_url\<close> is the prefix, the row's \<open>filename\<close> and
  \<open>.jpeg\<close>, concatenated.
\<close>

theorem image_url_of_filename:
  assumes "retrieve_images eng df0 = Inr df \<or> inference_input eng src = Inr df
           \<or> inference_output eng self src = Inr df \<or> notebook eng self src = Inr df"
    and "r \<in> set (rows df)"
  shows "\<exists>n. r ''filename'' = Some (Utf8 n)
           \<and> r ''image_url'' = Some (Utf8
                (''s3://daft-public-datasets/imagenet/val-10k-sample-deltalake/images/'' @ n @ ''.jpeg''))"
proof -
  have "\<exists>n. r ''filename'' = Some (Utf8 n)
           \<and> r ''image_url'' = Some (Utf8 (images_prefix @ n @ ''.jpeg''))"
    using assms(1)
  proof (elim disjE)
    assume "retrieve_images eng df0 = Inr df"
    from unfiltered_row[OF this assms(2)] show ?thesis by blast
  next
    assume "inference_input eng src = Inr df"
    from fed_row_cells[OF this assms(2)] show ?thesis by blast
  next
    assume "inference_output eng self src = Inr df"
    from output_row_cells[OF this assms(2)] show ?thesis by blast
  next
    assume "notebook eng self src = Inr df"
    from notebook_row_cells[OF this assms(2)] show ?thesis by blast
  qed
  then show ?thesis by (simp only: images_prefix_def)
qed

theorem image_url_of_filename_witness:
  "\<exists>out r. notebook stub_engine stub_classifier abc_table = Inr out \<and> r \<in> set (rows out)
     \<and> r ''filename'' = Some (Utf8 ''a'')
     \<and> r ''image_url'' = Some (Utf8
          ''s3://daft-public-datasets/imagenet/val-10k-sample-deltalake/images/a.jpeg'')"
proof -
  from abc_stub_run obtain out r where
    out: "notebook stub_engine stub_classifier abc_table = Inr out"
    and r: "r \<in> set (rows out)" "r ''filename'' = Some (Utf8 ''a'')" by blast
  from out have "retrieve_images stub_engine abc_table = Inr out \<or> inference_input stub_engine abc_table = Inr out
           \<or> inference_output stub_engine stub_classifier abc_table = Inr out
           \<or> notebook stub_engine stub_classifier abc_table = Inr out" by simp
  from image_url_of_filename [OF this r(1)] r(2)
  have "r ''image_url'' = Some (Utf8
          ''s3://daft-public-datasets/imagenet/val-10k-sample-deltalake/images/a.jpeg'')"
    by auto
  with out r show ?thesis by blast
qed

lemma inference_input_preprocessed:
  "inference_input eng src = and_then (preprocessed eng src) channel_filter"
  by (simp add: inference_input_def preprocessed_def and_then_def split: sum.splits)

lemma preprocessed_rows:
  assumes "preprocessed eng src = Inr df"
  shows "list_all2 (retrieved eng) (filter has_single_object (take NUM_ROWS (rows src))) (rows df)"
proof -
  from assms obtain d1 d2 where
    s1: "prune_data src = Inr d1" and s2: "into_partitions 16 d1 = Inr d2" and
    s3: "retrieve_images eng d2 = Inr df"
    by (auto simp: preprocessed_def and_then_Inr_iff)
  from retrieve_images_rows(1)[OF s3] show ?thesis
    by (simp add: rows_into_partitions(1)[OF s2] prune_data_rows(1)[OF s1])
qed

lemma preprocessed_succeeds:
  assumes sch: "''filename'' \<in> set (schema src)" "''object'' \<in> set (schema src)"
    and cells: "\<And>r. r \<in> set (take NUM_ROWS (rows src)) \<Longrightarrow>
       \<exists>n os b img. r ''filename'' = Some (Utf8 n) \<and> r ''object'' = Some (ObjectList os)
          \<and> download eng (images_prefix @ n @ ''.jpeg'') = Inr b \<and> decode eng b = Inr img"
  shows "\<exists>df. preprocessed eng src = Inr df"
proof -
  from inference_input_succeeds[OF assms] obtain fed where "inference_input eng src = Inr fed" ..
  then show ?thesis
    unfolding inference_input_preprocessed and_then_Inr_iff by blast
qed

lemma list_all2_map_eq:
  assumes "list_all2 R xs ys" and "\<And>x y. R x y \<Longrightarrow> f y = g x"
  shows "map f ys = map g xs"
  using assms by (induction rule: list_all2_induct) simp_all

text \<open>
  C8, as stated, fails on the table that holds the two resized columns before the channel
  filter has run. With a decoder that returns a one-channel array (a grayscale image),
  the table after the four derivations holds 32 by 32 by 1 arrays in
  \<open>image_resized_small\<close> and 256 by 256 by 1 arrays in \<open>image_resized_large\<close>.
\<close>

theorem gray_images_resize_to_one_channel:
  "map_sum id (column_shapes ''image_resized_small'') (preprocessed gray_engine abc_table)
     = Inr [Some [32, 32, 1], Some [32, 32, 1], Some [32, 32, 1]]
   \<and> map_sum id (column_shapes ''image_resized_large'') (preprocessed gray_engine abc_table)
     = Inr [Some [256, 256, 1], Some [256, 256, 1], Some [256, 256, 1]]"
proof -
  have "\<exists>df. preprocessed gray_engine abc_table = Inr df"
  proof (rule preprocessed_succeeds)
    fix r assume "r \<in> set (take NUM_ROWS (rows abc_table))"
    then have "r \<in> set (rows abc_table)" by (rule in_set_takeD)
    then show "\<exists>n os b img. r ''filename'' = Some (Utf8 n) \<and> r ''object'' = Some (ObjectList os)
          \<and> download gray_engine (images_prefix @ n @ ''.jpeg'') = Inr b
          \<and> decode gray_engine b = Inr img"
      by (auto simp: abc_rows gray_engine_def)
  qed (simp_all add: abc_table_def)
  then obtain df where df: "preprocessed gray_engine abc_table = Inr df" ..
  have keep: "filter has_single_object (take NUM_ROWS (rows abc_table)) = rows abc_table"
    by (simp add: abc_rows NUM_ROWS_def)
  from preprocessed_rows[OF df] have rel: "list_all2 (retrieved gray_engine) (rows abc_table) (rows df)"
    by (simp only: keep)
  have cells: "r' ''image_resized_small'' = Some (Image (resize gray_engine 32 32 (blank 4 4 1)))
      \<and> r' ''image_resized_large'' = Some (Image (resize gray_engine 256 256 (blank 4 4 1)))"
    if "retrieved gray_engine r r'" for r r'
    using that unfolding retrieved_def by (auto simp: gray_engine_def)
  from rel have "column_shapes ''image_resized_small'' df = map (\<lambda>r. Some [32, 32, 1]) (rows abc_table)"
    unfolding column_shapes_def
    by (rule list_all2_map_eq) (simp add: cells shape_resize, simp add: blank_def)
  moreover from rel have "column_shapes ''image_resized_large'' df = map (\<lambda>r. Some [256, 256, 1]) (rows abc_table)"
    unfolding column_shapes_def
    by (rule list_all2_map_eq) (simp add: cells shape_resize, simp add: blank_def)
  ultimately show ?thesis
    by (simp add: df abc_rows)
qed

lemma preprocessed_row:
  assumes "preprocessed eng src = Inr pre" and "r \<in> set (rows pre)"
  shows "\<exists>n img. r ''filename'' = Some (Utf8 n)
           \<and> r ''image_url'' = Some (Utf8 (images_prefix @ n @ ''.jpeg''))
           \<and> r ''image'' = Some (Image img)
           \<and> r ''image_resized_small'' = Some (Image (resize eng 32 32 img))
           \<and> r ''image_resized_large'' = Some (Image (resize eng 256 256 img))"
proof -
  from assms(1) obtain d2 where "retrieve_images eng d2 = Inr pre"
    by (auto simp: preprocessed_def and_then_Inr_iff)
  then show ?thesis using assms(2) by (rule unfiltered_row)
qed

lemma gray_preprocessed:
  "\<exists>pre. preprocessed gray_engine abc_table = Inr pre \<and> length (rows pre) = 3"
proof -
  have "\<exists>df. preprocessed gray_engine abc_table = Inr df"
  proof (rule preprocessed_succeeds)
    fix r assume "r \<in> set (take NUM_ROWS (rows abc_table))"
    then have "r \<in> set (rows abc_table)" by (rule in_set_takeD)
    then show "\<exists>n os b img. r ''filename'' = Some (Utf8 n) \<and> r ''object'' = Some (ObjectList os)
          \<and> download gray_engine (images_prefix @ n @ ''.jpeg'') = Inr b
          \<and> decode gray_engine b = Inr img"
      by (auto simp: abc_rows gray_engine_def)
  qed (simp_all add: abc_table_def)
  then obtain pre where pre: "preprocessed gray_engine abc_table = Inr pre" ..
  have keep: "filter has_single_object (take NUM_ROWS (rows abc_table)) = rows abc_table"
    by (simp add: abc_rows NUM_ROWS_def)
  from preprocessed_rows[OF pre] have "list_all2 (retrieved gray_engine) (rows abc_table) (rows pre)"
    by (simp only: keep)
  then have "length (rows pre) = length (rows abc_table)"
    by (simp add: list_all2_lengthD)
  then have "length (rows pre) = 3" by (simp add: abc_rows)
  with pre show ?thesis by blast
qed

text \<open>
  C8, amended. In every row that has passed the channel filter, that is in the table the
  inference stages read and in the table they leave, \<open>image_resized_small\<close> holds an
  array of shape 32 by 32 by 3 and \<open>image_resized_large\<close> one of shape 256 by 256 by 3.
  In the table before the channel filter (after the four derivations) a resized array has
  the target height and width and the channel count of the row's decoded image.
\<close>

theorem resized_columns_shape:
  "((retrieve_images eng df0 = Inr pre \<or> preprocessed eng src = Inr pre) \<longrightarrow>
      (\<forall>r \<in> set (rows pre). \<exists>img small large.
          r ''image'' = Some (Image img)
          \<and> r ''image_resized_small'' = Some (Image small) \<and> shape small = [32, 32, channels img]
          \<and> r ''image_resized_large'' = Some (Image large) \<and> shape large = [256, 256, channels img]))
   \<and> ((inference_input eng src = Inr df \<or> inference_output eng self src = Inr df) \<longrightarrow>
      (\<forall>r \<in> set (rows df). \<exists>small large.
          r ''image_resized_small'' = Some (Image small) \<and> shape small = [32, 32, 3]
          \<and> r ''image_resized_large'' = Some (Image large) \<and> shape large = [256, 256, 3]))"
proof (intro conjI impI ballI)
  fix r
  assume tab: "retrieve_images eng df0 = Inr pre \<or> preprocessed eng src = Inr pre"
    and r: "r \<in> set (rows pre)"
  have "\<exists>img. r ''image'' = Some (Image img)
          \<and> r ''image_resized_small'' = Some (Image (resize eng 32 32 img))
          \<and> r ''image_resized_large'' = Some (Image (resize eng 256 256 img))"
    using tab
  proof
    assume "retrieve_images eng df0 = Inr pre"
    from unfiltered_row[OF this r] show ?thesis by blast
  next
    assume "preprocessed eng src = Inr pre"
    from preprocessed_row[OF this r] show ?thesis by blast
  qed
  then obtain img where "r ''image'' = Some (Image img)"
    "r ''image_resized_small'' = Some (Image (resize eng 32 32 img))"
    "r ''image_resized_large'' = Some (Image (resize eng 256 256 img))" by blast
  then show "\<exists>img small large.
          r ''image'' = Some (Image img)
          \<and> r ''image_resized_small'' = Some (Image small) \<and> shape small = [32, 32, channels img]
          \<and> r ''image_resized_large'' = Some (Image large) \<and> shape large = [256, 256, channels img]"
    by (simp add: shape_resize)
next
  fix r
  assume tab: "inference_input eng src = Inr df \<or> inference_output eng self src = Inr df"
    and r: "r \<in> set (rows df)"
  have "\<exists>img. channels img = 3
          \<and> r ''image_resized_small'' = Some (Image (resize eng 32 32 img))
          \<and> r ''image_resized_large'' = Some (Image (resize eng 256 256 img))"
    using tab
  proof
    assume "inference_input eng src = Inr df"
    from fed_row_cells[OF this r] show ?thesis by blast
  next
    assume "inference_output eng self src = Inr df"
    from output_row_cells[OF this r] show ?thesis by blast
  qed
  then obtain img where "channels img = 3"
    "r ''image_resized_small'' = Some (Image (resize eng 32 32 img))"
    "r ''image_resized_large'' = Some (Image (resize eng 256 256 img))" by blast
  then show "\<exists>small large.
          r ''image_resized_small'' = Some (Image small) \<and> shape small = [32, 32, 3]
          \<and> r ''image_resized_large'' = Some (Image large) \<and> shape large = [256, 256, 3]"
    by (simp add: shape_resize)
qed

theorem resized_columns_shape_witness:
  "\<exists>pre r0 img small0 large0 fed r small large.
     preprocessed gray_engine abc_table = Inr pre \<and> r0 \<in> set (rows pre)
     \<and> r0 ''image'' = Some (Image img) \<and> channels img = 1
     \<and> r0 ''image_resized_small'' = Some (Image small0) \<and> shape small0 = [32, 32, 1]
     \<and> r0 ''image_resized_large'' = Some (Image large0) \<and> shape large0 = [256, 256, 1]
     \<and> inference_input stub_engine abc_table = Inr fed \<and> r \<in> set (rows fed)
     \<and> r ''image_resized_small'' = Some (Image small) \<and> shape small = [32, 32, 3]
     \<and> r ''image_resized_large'' = Some (Image large) \<and> shape large = [256, 256, 3]"
proof -
  from gray_preprocessed obtain pre where pre: "preprocessed gray_engine abc_table = Inr pre"
    and "length (rows pre) = 3" by blast
  then obtain r0 where r0: "r0 \<in> set (rows pre)" by (cases "rows pre") auto
  from abc_stub_run obtain fed where fed: "inference_input stub_engine abc_table = Inr fed"
    and "length (rows fed) = 3" by blast
  then obtain r where r: "r \<in> set (rows fed)" by (cases "rows fed") auto
  have "preprocessed gray_engine abc_table = Inr pre \<longrightarrow>
      (\<forall>r \<in> set (rows pre). \<exists>img small large.
          r ''image'' = Some (Image img)
          \<and> r ''image_resized_small'' = Some (Image small) \<and> shape small = [32, 32, channels img]
          \<and> r ''image_resized_large'' = Some (Image large) \<and> shape large = [256, 256, channels img])"
    using resized_columns_shape [where eng = gray_engine and src = abc_table and pre = pre
        and ?df0.0 = abc_table]
    by blast
  with pre r0 obtain img small0 large0 where before:
    "r0 ''image'' = Some (Image img)"
    "r0 ''image_resized_small'' = Some (Image small0)" "shape small0 = [32, 32, channels img]"
    "r0 ''image_resized_large'' = Some (Image large0)" "shape large0 = [256, 256, channels img]"
    by blast
  from preprocessed_rows[OF pre] r0 obtain s0 where "retrieved gray_engine s0 r0"
    by (blast dest: list_all2_right_mem)
  from retrieved_image[OF this] before(1) have gray: "channels img = 1"
    by (auto simp: gray_engine_def blank_def)
  have "inference_input stub_engine abc_table = Inr fed \<longrightarrow>
      (\<forall>r \<in> set (rows fed). \<exists>small large.
          r ''image_resized_small'' = Some (Image small) \<and> shape small = [32, 32, 3]
          \<and> r ''image_resized_large'' = Some (Image large) \<and> shape large = [256, 256, 3])"
    using resized_columns_shape [where eng = stub_engine and src = abc_table and df = fed
        and self = stub_classifier]
    by blast
  with fed r obtain small large where after:
    "r ''image_resized_small'' = Some (Image small)" "shape small = [32, 32, 3]"
    "r ''image_resized_large'' = Some (Image large)" "shape large = [256, 256, 3]"
    by blast
  from before(3,5) gray have "shape small0 = [32, 32, 1]" "shape large0 = [256, 256, 1]"
    by simp_all
  with pre r0 before(1,2,4) gray fed r after show ?thesis by blast
qed

lemma written_files:
  assumes "written eng self src = Inr files"
  shows "length files = 16"
proof -
  from assms obtain df where df: "inference_output eng self src = Inr df"
    and files: "files = map (\<lambda>p. \<lparr>file_schema = output_columns,
                              file_rows = map (\<lambda>r. r |` set output_columns) p\<rparr>) (parts df)"
    unfolding written_Inr_iff by blast
  from inference_output_rows[OF df] inference_input_rows(3) have "length (parts df) = 16"
    by auto
  with files show ?thesis by simp
qed

lemma written_file_schema:
  assumes "written eng self src = Inr files" and "f \<in> set files"
  shows "file_schema f = output_columns"
proof -
  from assms(1) obtain df where df: "inference_output eng self src = Inr df"
    and files: "files = map (\<lambda>p. \<lparr>file_schema = output_columns,
                              file_rows = map (\<lambda>r. r |` set output_columns) p\<rparr>) (parts df)"
    unfolding written_Inr_iff by blast
  from assms(2) show ?thesis unfolding files by auto
qed

lemma notebook_of_written:
  assumes "written eng self src = Inr files"
  shows "\<exists>out. notebook eng self src = Inr out \<and> schema out = output_columns"
proof -
  from assms obtain df where "inference_output eng self src = Inr df"
    "set output_columns \<subseteq> set (schema df)"
    unfolding written_Inr_iff by blast
  then have "notebook eng self src = Inr \<lparr>schema = output_columns,
      parts = map (map (\<lambda>r. r |` set output_columns)) (parts df)\<rparr>"
    unfolding notebook_Inr_iff by blast
  then show ?thesis by simp
qed

text \<open>
  C7. The sink writes files (sixteen, one per partition) that all carry the schema
  \<open>filename\<close>, \<open>image_url\<close>, \<open>object\<close>, \<open>predictions_lowres\<close>, \<open>predictions_highres\<close>, in
  that order; every written row has a value in exactly these five columns; and the table
  read back from the files has that schema.
\<close>

theorem written_schema:
  assumes "written eng self src = Inr files"
  shows "files \<noteq> []
         \<and> (\<forall>f \<in> set files.
               file_schema f = [''filename'', ''image_url'', ''object'',
                                ''predictions_lowres'', ''predictions_highres'']
               \<and> (\<forall>w \<in> set (file_rows f).
                     dom w = {''filename'', ''image_url'', ''object'',
                              ''predictions_lowres'', ''predictions_highres''}))
         \<and> (\<exists>out. notebook eng self src = Inr out
               \<and> schema out = [''filename'', ''image_url'', ''object'',
                                ''predictions_lowres'', ''predictions_highres''])"
proof (intro conjI ballI)
  from written_files[OF assms] show "files \<noteq> []" by auto
next
  fix f assume f: "f \<in> set files"
  {
    fix w assume w: "w \<in> set (file_rows f)"
    from written_row(2)[OF assms f w] obtain df r where df: "inference_output eng self src = Inr df"
      and r: "r \<in> set (rows df)" "w = r |` set output_columns" by blast
    from output_row_cells[OF df r(1)] have "set output_columns \<subseteq> dom r"
      by (auto simp: output_columns_def)
    then have "dom w = set output_columns"
      unfolding r(2) by auto
    then show "dom w = {''filename'', ''image_url'', ''object'',
                              ''predictions_lowres'', ''predictions_highres''}"
      by (simp add: output_columns_def)
  }
  from written_file_schema[OF assms f]
  show "file_schema f = [''filename'', ''image_url'', ''object'',
                                ''predictions_lowres'', ''predictions_highres'']"
    by (simp add: output_columns_def)
next
  from notebook_of_written[OF assms]
  show "\<exists>out. notebook eng self src = Inr out
               \<and> schema out = [''filename'', ''image_url'', ''object'',
                                ''predictions_lowres'', ''predictions_highres'']"
    by (simp add: output_columns_def)
qed

theorem written_schema_witness:
  "\<exists>files. written stub_engine stub_classifier abc_table = Inr files \<and> files \<noteq> []
     \<and> list_all (\<lambda>f. file_schema f = [''filename'', ''image_url'', ''object'',
                                       ''predictions_lowres'', ''predictions_highres'']) files"
proof -
  from abc_stub_run obtain files where
    files: "written stub_engine stub_classifier abc_table = Inr files" by blast
  from written_schema [OF files] files show ?thesis
    by (auto simp: list_all_iff)
qed



end
